theory Spec2Isabelle
  imports Complex_Main "HOL-Library.Multiset" "HOL-Library.Option_ord"
begin

section \<open>Ultrasonic attendance verification\<close>

text \<open>
  The development follows the TypeScript sources: \<^verbatim>\<open>src/audio/audioEngine.ts\<close>,
  the pattern utilities (imported as \<^verbatim>\<open>utils/patternUtils\<close>; in the source tree
  they follow the logger in \<^verbatim>\<open>src/utils/logger.ts\<close>) and the teacher view's queue
  processing (in the source tree, in \<^verbatim>\<open>src/services/firebase.ts\<close>). JavaScript
  numbers that are counts or indices are modelled as \<open>nat\<close> or \<open>int\<close>. A finite
  JavaScript number that is a physical quantity (a frequency in Hz, an amplitude in
  dB, a time in ms) is kept as the real number it denotes. The listener's
  arithmetic on these numbers is double-precision arithmetic: every operation
  rounds its exact result to the nearest double. The emitter copies frequencies
  without arithmetic; its schedule times are computed over the reals, and nothing
  below depends on them.
\<close>

subsection \<open>Configuration constants (AUDIO_CONFIG)\<close>

definition FREQ_LOW :: real where "FREQ_LOW = 17500"
definition FREQ_HIGH :: real where "FREQ_HIGH = 19000"
definition FREQ_THRESHOLD :: real where "FREQ_THRESHOLD = 18250"
definition FREQ_TOLERANCE :: real where "FREQ_TOLERANCE = 250"
definition NUM_PULSES :: nat where "NUM_PULSES = 6"
definition MAX_PEAKS :: nat where "MAX_PEAKS = 20"
definition BANDPASS_LOW :: real where "BANDPASS_LOW = 16500"
definition BANDPASS_HIGH :: real where "BANDPASS_HIGH = 21000"
definition FFT_SIZE :: nat where "FFT_SIZE = 8192"
definition SNR_THRESHOLD :: real where "SNR_THRESHOLD = 1.5"
definition PEAK_MERGE_FREQ_HZ :: real where "PEAK_MERGE_FREQ_HZ = 400"
definition PEAK_MERGE_TIME_MS :: real where "PEAK_MERGE_TIME_MS = 80"

text \<open>\<^verbatim>\<open>type PulseType = 'H' | 'L' | '?'\<close>; the third value marks a missing or unknown pulse.\<close>

datatype PulseType = H | L | Unknown

subsection \<open>Pattern utilities\<close>

text \<open>\<^verbatim>\<open>export const PASS_THRESHOLD = AUDIO_CONFIG.NUM_PULSES - 1\<close>\<close>

definition PASS_THRESHOLD :: nat where
  "PASS_THRESHOLD = NUM_PULSES - 1"

text \<open>
  \<^verbatim>\<open>generatePattern(length = NUM_PULSES)\<close>: a \<^verbatim>\<open>for\<close> loop that pushes
  \<^verbatim>\<open>Math.random() < 0.5 ? 'H' : 'L'\<close>. The random source is made explicit: \<open>random k\<close>
  is the value of the \<open>k\<close>-th call of \<^verbatim>\<open>Math.random()\<close>. The loop counter and
  the requested length are integers; a negative length runs the body zero times.
\<close>

function generatePattern_loop ::
  "(nat \<Rightarrow> real) \<Rightarrow> int \<Rightarrow> int \<Rightarrow> PulseType list \<Rightarrow> PulseType list" where
  "generatePattern_loop random len i pattern =
     (if i < len
      then generatePattern_loop random len (i + 1)
             (pattern @ [if random (nat i) < 0.5 then H else L])
      else pattern)"
  by pat_completeness auto
termination
  by (relation "measure (\<lambda>(random, len, i, pattern). nat (len - i))") auto

declare generatePattern_loop.simps [simp del]

definition generatePattern :: "(nat \<Rightarrow> real) \<Rightarrow> int \<Rightarrow> PulseType list" where
  "generatePattern random len = generatePattern_loop random len 0 []"

text \<open>The call \<^verbatim>\<open>generatePattern()\<close> with the default argument.\<close>

definition generatePattern_default :: "(nat \<Rightarrow> real) \<Rightarrow> PulseType list" where
  "generatePattern_default random = generatePattern random (int NUM_PULSES)"

text \<open>\<^verbatim>\<open>classifyFrequency(freq, threshold = FREQ_THRESHOLD)\<close>\<close>

definition classifyFrequency :: "real \<Rightarrow> real \<Rightarrow> PulseType" where
  "classifyFrequency freq threshold = (if freq > threshold then H else L)"

text \<open>
  \<^verbatim>\<open>comparePatterns(emitted, detected)\<close>. The \<^verbatim>\<open>while\<close> loop runs on the two
  indices and collects the matched positions of \<open>detected\<close>. The lines of \<open>details\<close>
  are kept as structured values instead of formatted text.
\<close>

function match_loop ::
  "PulseType list \<Rightarrow> PulseType list \<Rightarrow> nat \<Rightarrow> nat \<Rightarrow> nat list \<Rightarrow> nat list" where
  "match_loop emitted detected emitIndex detectIndex matchedPositions =
     (if emitIndex < length emitted \<and> detectIndex < length detected
      then (if emitted ! emitIndex = detected ! detectIndex
            then match_loop emitted detected (emitIndex + 1) (detectIndex + 1)
                   (matchedPositions @ [detectIndex])
            else match_loop emitted detected emitIndex (detectIndex + 1) matchedPositions)
      else matchedPositions)"
  by pat_completeness auto
termination
  by (relation "measure (\<lambda>(emitted, detected, emitIndex, detectIndex, matchedPositions).
        length detected - detectIndex)") auto

declare match_loop.simps [simp del]

datatype detail =
    PulseFound nat PulseType nat
  | PulseNotFound nat PulseType
  | DetectedTotal nat "PulseType list"
  | FoundInOrder nat nat

record CompareResult =
  matchCount :: nat
  passed :: bool
  details :: "detail list"

definition comparePatterns :: "PulseType list \<Rightarrow> PulseType list \<Rightarrow> CompareResult" where
  "comparePatterns emitted detected =
     (let matchedPositions = match_loop emitted detected 0 0 [];
          matchCount = length matchedPositions;
          details = map (\<lambda>i. if i < matchCount
                               then PulseFound (i + 1) (emitted ! i) (matchedPositions ! i + 1)
                               else PulseNotFound (i + 1) (emitted ! i))
                        [0 ..< length emitted]
                    @ [DetectedTotal (length detected) detected,
                       FoundInOrder matchCount (length emitted)]
      in \<lparr> matchCount = matchCount,
           passed = (matchCount \<ge> PASS_THRESHOLD),
           details = details \<rparr>)"

text \<open>
  The verifier as the specification words it: one forward pass over the detected
  sequence; when the current detected symbol equals the current unmatched emitted
  symbol, a match is counted and the emitted pointer advances; the detected pointer
  always advances.
\<close>

fun greedy_earliest_match :: "PulseType list \<Rightarrow> PulseType list \<Rightarrow> nat" where
  "greedy_earliest_match [] ds = 0"
| "greedy_earliest_match (e # es) [] = 0"
| "greedy_earliest_match (e # es) (d # ds) =
     (if e = d then Suc (greedy_earliest_match es ds)
      else greedy_earliest_match (e # es) ds)"

section \<open>Audio engine\<close>

subsection \<open>Emitter\<close>

text \<open>
  \<^verbatim>\<open>interface EmitterConfig\<close>. The two optional fields are \<open>None\<close> when
  \<^verbatim>\<open>undefined\<close>. The type of numbers is a parameter: the emitter uses reals, the
  grouping of queue entries only prints and compares the values.
\<close>

record 'n EmitterConfig =
  volume :: 'n
  freqLow :: 'n
  freqHigh :: 'n
  pulseDuration :: 'n
  pulseGap :: 'n
  useOutputFilter :: "bool option"
  filterCutoff :: "'n option"

text \<open>
  One call of \<^verbatim>\<open>schedulePulse(ctx, freq, volume, durationMs, startTime, useFilter)\<close>:
  the oscillator's frequency, the envelope times and the routing.
\<close>

definition FADE_IN_MS :: real where "FADE_IN_MS = 10"
definition FADE_OUT_MS :: real where "FADE_OUT_MS = 20"

record Pulse =
  pulse_freq :: real
  pulse_volume :: real
  pulse_startTime :: real
  pulse_fadeInEnd :: real
  pulse_fadeOutStart :: real
  pulse_endTime :: real
  pulse_throughFilter :: bool

text \<open>
  The emitter object: whether \<^verbatim>\<open>audioContext\<close> is set, the cutoff of the highpass
  node \<^verbatim>\<open>outputFilter\<close> (\<open>None\<close> when the node is \<^verbatim>\<open>null\<close>) and whether a
  wake lock is held. The environment says whether an \<^verbatim>\<open>AudioContext\<close> can be
  created, whether a wake lock is granted, and the hardware clock's
  \<^verbatim>\<open>currentTime\<close> (seconds).
\<close>

record UltrasonicEmitter =
  audioContext :: bool
  outputFilter :: "real option"
  wakeLock :: bool

record AudioEnv =
  contextAvailable :: bool
  wakeLockGranted :: bool
  currentTime :: real

datatype emit_error = AudioContextUnavailable

definition init :: "AudioEnv \<Rightarrow> UltrasonicEmitter \<Rightarrow> emit_error + UltrasonicEmitter" where
  "init env e =
     (if \<not> audioContext e \<and> \<not> contextAvailable env then Inl AudioContextUnavailable
      else
        (let e1 = (if \<not> audioContext e
                   then e\<lparr> audioContext := True, outputFilter := Some 15000 \<rparr>
                   else e)
         in Inr (e1\<lparr> wakeLock := (if wakeLockGranted env then True else wakeLock e1) \<rparr>)))"

definition schedulePulse ::
  "UltrasonicEmitter \<Rightarrow> real \<Rightarrow> real \<Rightarrow> real \<Rightarrow> real \<Rightarrow> bool \<Rightarrow> Pulse" where
  "schedulePulse e freq vol durationMs startTime useFilter =
     \<lparr> pulse_freq = freq,
       pulse_volume = vol,
       pulse_startTime = startTime,
       pulse_fadeInEnd = startTime + FADE_IN_MS / 1000,
       pulse_fadeOutStart = startTime + (durationMs - FADE_OUT_MS) / 1000,
       pulse_endTime = startTime + durationMs / 1000,
       pulse_throughFilter = (useFilter \<and> outputFilter e \<noteq> None) \<rparr>"

text \<open>
  The \<^verbatim>\<open>for\<close> loop of \<^verbatim>\<open>emit\<close>: for each index it chooses the frequency, pushes
  it on \<^verbatim>\<open>emittedFreqs\<close>, schedules the pulse and advances \<^verbatim>\<open>scheduleTime\<close>.
\<close>

function emit_loop ::
  "UltrasonicEmitter \<Rightarrow> PulseType list \<Rightarrow> real EmitterConfig \<Rightarrow> bool \<Rightarrow> nat \<Rightarrow> real
     \<Rightarrow> real list \<Rightarrow> Pulse list \<Rightarrow> real list \<times> Pulse list" where
  "emit_loop e pattern cfg useFilter i scheduleTime emittedFreqs scheduled =
     (if i < length pattern
      then emit_loop e pattern cfg useFilter (i + 1)
             (scheduleTime + pulseDuration cfg / 1000
                + (if int i < int (length pattern) - 1 then pulseGap cfg / 1000 else 0))
             (emittedFreqs @ [if pattern ! i = H then freqHigh cfg else freqLow cfg])
             (scheduled @
                [schedulePulse e (if pattern ! i = H then freqHigh cfg else freqLow cfg)
                   (volume cfg) (pulseDuration cfg) scheduleTime useFilter])
      else (emittedFreqs, scheduled))"
  by pat_completeness auto
termination
  by (relation "measure (\<lambda>(e, pattern, cfg, useFilter, i, scheduleTime, emittedFreqs, scheduled).
        length pattern - i)") auto

declare emit_loop.simps [simp del]

text \<open>
  What \<^verbatim>\<open>emit\<close> returns and does: the returned \<^verbatim>\<open>emittedFreqs\<close>, the pulses it
  scheduled (in call order), the time it slept before resolving, and the emitter
  afterwards.
\<close>

record EmitOutcome =
  emittedFreqs :: "real list"
  scheduledPulses :: "Pulse list"
  sleptMs :: real
  emitterAfter :: UltrasonicEmitter

definition WAKE_UP_FREQ :: real where "WAKE_UP_FREQ = 17500"

definition emit ::
  "AudioEnv \<Rightarrow> UltrasonicEmitter \<Rightarrow> PulseType list \<Rightarrow> real EmitterConfig
     \<Rightarrow> emit_error + EmitOutcome" where
  "emit env e0 pattern cfg =
     (case (if \<not> audioContext e0 then init env e0 else Inr e0) of
        Inl err \<Rightarrow> Inl err
      | Inr e1 \<Rightarrow>
         (let useFilter = (useOutputFilter cfg \<noteq> Some False);
              cutoff = (case filterCutoff cfg of None \<Rightarrow> 15000 | Some c \<Rightarrow> c);
              e = e1\<lparr> outputFilter := map_option (\<lambda>_. cutoff) (outputFilter e1) \<rparr>;
              baseTime = currentTime env + 0.01;
              warmup = schedulePulse e WAKE_UP_FREQ (volume cfg) 40 baseTime useFilter;
              (freqs, pulses) =
                 emit_loop e pattern cfg useFilter 0 (baseTime + 0.16) [] [warmup];
              totalDurationMs = 160 + pulseDuration cfg * real (length pattern)
                                + pulseGap cfg * (real (length pattern) - 1)
          in Inr \<lparr> emittedFreqs = freqs,
                   scheduledPulses = pulses,
                   sleptMs = totalDurationMs + 50,
                   emitterAfter = e \<rparr>))"

subsection \<open>Double-precision arithmetic\<close>

text \<open>
  IEEE 754 binary64, round to nearest, ties to even. \<open>rne\<close> rounds a real to the
  nearest integer, ties to the even one. \<open>binade x\<close> is the exponent of the leading
  bit of \<open>x\<close>, not below \<open>-1022\<close> (gradual underflow). \<open>fl x\<close> is the double nearest to
  \<open>x\<close>: \<open>x\<close> rounded to 53 significant bits. The four operations round the exact
  result. Overflow to \<^verbatim>\<open>Infinity\<close>, \<^verbatim>\<open>NaN\<close> and the sign of zero are not modelled:
  the quantities of this program stay far inside the finite range, and the only
  \<^verbatim>\<open>-Infinity\<close> that occurs, the reading of a silent bin, is modelled apart.
  A decimal literal of the source, such as \<^verbatim>\<open>0.9\<close>, denotes the double \<open>fl 0.9\<close>.
\<close>

definition rne :: "real \<Rightarrow> int" where
  "rne y = (let f = \<lfloor>y\<rfloor> in
            if y - of_int f < 1/2 then f
            else if y - of_int f > 1/2 then f + 1
            else if even f then f else f + 1)"

definition binade :: "real \<Rightarrow> int" where
  "binade x = max (- 1022) \<lfloor>log 2 \<bar>x\<bar>\<rfloor>"

definition fl :: "real \<Rightarrow> real" where
  "fl x = (if x = 0 then 0
          else of_int (rne (x * 2 powi (52 - binade x))) * 2 powi (binade x - 52))"

definition dadd :: "real \<Rightarrow> real \<Rightarrow> real" where "dadd x y = fl (x + y)"
definition dsub :: "real \<Rightarrow> real \<Rightarrow> real" where "dsub x y = fl (x - y)"
definition dmul :: "real \<Rightarrow> real \<Rightarrow> real" where "dmul x y = fl (x * y)"
definition ddiv :: "real \<Rightarrow> real \<Rightarrow> real" where "ddiv x y = fl (x / y)"

subsection \<open>Listener\<close>

text \<open>\<^verbatim>\<open>interface DetectedPeak\<close>; the field \<^verbatim>\<open>type\<close> is named \<open>ptype\<close>.\<close>

record DetectedPeak =
  frequency :: real
  amplitude :: real
  timestamp :: real
  ptype :: PulseType
  snr :: real

text \<open>
  The listener object. \<open>analyserReady\<close> says that both \<^verbatim>\<open>analyser\<close> and
  \<^verbatim>\<open>audioContext\<close> are set (after a successful \<^verbatim>\<open>init\<close>).
\<close>

record UltrasonicListener =
  analyserReady :: bool
  isRecording :: bool
  peaks :: "DetectedPeak list"
  animationFrameId :: "nat option"
  noiseFloor :: real

text \<open>
  What one run of \<^verbatim>\<open>analyzeLoop\<close> reads from its environment: the array filled by
  \<^verbatim>\<open>getFloatFrequencyData\<close> (dB readings, one per bin; \<open>None\<close> is the reading
  \<^verbatim>\<open>-Infinity\<close> of a silent bin, below every finite reading), the context's sample
  rate, \<^verbatim>\<open>performance.now()\<close>, and the handle returned by
  \<^verbatim>\<open>requestAnimationFrame\<close>. The sample rate of an audio context is positive.
\<close>

record Frame =
  dataArray :: "real option list"
  sampleRate :: real
  now :: real
  nextFrameId :: nat

definition binSize :: "Frame \<Rightarrow> real" where
  "binSize fr = ddiv (sampleRate fr) (real FFT_SIZE)"

definition lowBin :: "Frame \<Rightarrow> nat" where
  "lowBin fr = nat \<lfloor>ddiv BANDPASS_LOW (binSize fr)\<rfloor>"

definition highBin :: "Frame \<Rightarrow> nat" where
  "highBin fr = nat \<lceil>ddiv BANDPASS_HIGH (binSize fr)\<rceil>"

text \<open>
  The scan \<^verbatim>\<open>for (i = lowBin; i <= highBin && i < bufferLength; i++)\<close>: the state
  is \<^verbatim>\<open>(amplitudes, maxAmplitude, maxBin)\<close>, with \<^verbatim>\<open>maxAmplitude = -Infinity\<close>
  and \<^verbatim>\<open>maxBin = lowBin\<close> at the start.
\<close>

definition scan_step ::
  "real option list \<Rightarrow> real option list \<times> real option \<times> nat \<Rightarrow> nat
     \<Rightarrow> real option list \<times> real option \<times> nat" where
  "scan_step dat s i =
     (case s of (amplitudes, maxAmplitude, maxBin) \<Rightarrow>
        (amplitudes @ [dat ! i],
         if dat ! i > maxAmplitude then dat ! i else maxAmplitude,
         if dat ! i > maxAmplitude then i else maxBin))"

definition scanBand :: "Frame \<Rightarrow> real option list \<times> real option \<times> nat" where
  "scanBand fr =
     foldl (scan_step (dataArray fr)) ([], None, lowBin fr)
       [lowBin fr ..< min (highBin fr + 1) (length (dataArray fr))]"

text \<open>
  \<^verbatim>\<open>amplitudes.sort((a, b) => a - b)\<close> and
  \<^verbatim>\<open>amplitudes[Math.floor(amplitudes.length / 2)] || -100\<close>: the middle reading of
  the sorted band; an empty band and a middle reading of exactly 0 both give
  \<open>-100\<close>.
\<close>

definition medianAmplitude :: "real option list \<Rightarrow> real option" where
  "medianAmplitude amplitudes =
     (if amplitudes = [] then Some (-100)
      else (case sort amplitudes ! (length amplitudes div 2) of
              None \<Rightarrow> None
            | Some m \<Rightarrow> if m = 0 then Some (-100) else Some m))"

text \<open>
  \<^verbatim>\<open>if (medianAmplitude > this.noiseFloor) this.noiseFloor = this.noiseFloor * 0.9 + medianAmplitude * 0.1\<close>,
  two multiplications and an addition of doubles.
\<close>

definition adaptNoiseFloor :: "real option \<Rightarrow> real \<Rightarrow> real" where
  "adaptNoiseFloor median nf =
     (case median of
        None \<Rightarrow> nf
      | Some m \<Rightarrow> if m > nf then dadd (dmul nf (fl 0.9)) (dmul m (fl 0.1)) else nf)"

text \<open>
  Peak merging: \<^verbatim>\<open>this.peaks.find(p => ...)\<close> returns the first retained peak within
  the merge windows; the model finds its index, since the update is made in place
  on that element. Both differences are subtractions of doubles.
\<close>

definition withinMergeWindow :: "real \<Rightarrow> real \<Rightarrow> DetectedPeak \<Rightarrow> bool" where
  "withinMergeWindow freq t p \<longleftrightarrow>
     \<bar>dsub (frequency p) freq\<bar> < PEAK_MERGE_FREQ_HZ
     \<and> dsub t (timestamp p) < PEAK_MERGE_TIME_MS"

fun findIndex :: "('a \<Rightarrow> bool) \<Rightarrow> 'a list \<Rightarrow> nat option" where
  "findIndex P [] = None"
| "findIndex P (x # xs) = (if P x then Some 0 else map_option Suc (findIndex P xs))"

definition recordPeak :: "DetectedPeak \<Rightarrow> DetectedPeak list \<Rightarrow> DetectedPeak list" where
  "recordPeak new ps =
     (case findIndex (withinMergeWindow (frequency new) (timestamp new)) ps of
        Some k \<Rightarrow> if amplitude new > amplitude (ps ! k) then ps[k := new] else ps
      | None \<Rightarrow> ps @ [new])"

text \<open>
  The SNR threshold \<^verbatim>\<open>20 * Math.log10(SNR_THRESHOLD)\<close>; \<^verbatim>\<open>Math.log10\<close> is taken
  to return the double nearest to the logarithm.
\<close>

definition minSNRdB :: real where
  "minSNRdB = dmul 20 (fl (log 10 SNR_THRESHOLD))"

text \<open>
  The classification of the strongest bin, lines 368 to 391 of the audio engine:
  the SNR against the adapted noise floor, the threshold, the frequency
  validation and the symbol. The result is the new detection, or \<open>None\<close> when the
  frame is rejected. A strongest bin of \<^verbatim>\<open>-Infinity\<close> has SNR \<^verbatim>\<open>-Infinity\<close> and
  fails the threshold.
\<close>

definition classifyPeak :: "Frame \<Rightarrow> real option \<Rightarrow> nat \<Rightarrow> real \<Rightarrow> DetectedPeak option" where
  "classifyPeak fr maxAmplitude maxBin nf =
     (case maxAmplitude of
        None \<Rightarrow> None
      | Some maxAmp \<Rightarrow>
          (let snr = dsub maxAmp nf;
               freq = dmul (real maxBin) (binSize fr);
               isValidH = (\<bar>dsub freq FREQ_HIGH\<bar> \<le> FREQ_TOLERANCE);
               isValidL = (\<bar>dsub freq FREQ_LOW\<bar> \<le> FREQ_TOLERANCE)
           in if snr \<ge> minSNRdB \<and> (isValidH \<or> isValidL)
              then Some \<lparr> frequency = freq, amplitude = maxAmp, timestamp = now fr,
                          ptype = (if isValidH then H else L), snr = snr \<rparr>
              else None))"

text \<open>
  One run of \<^verbatim>\<open>analyzeLoop\<close>: the guard, the scan of the band, the adaptation of
  the noise floor, the classification, and the merge or push of the new
  detection. Every path that passes the guard ends by requesting the next
  animation frame.
\<close>

definition analyzeLoop :: "Frame \<Rightarrow> UltrasonicListener \<Rightarrow> UltrasonicListener" where
  "analyzeLoop fr st =
     (if \<not> isRecording st \<or> \<not> analyserReady st then st
      else
        (case scanBand fr of (amplitudes, maxAmplitude, maxBin) \<Rightarrow>
           (let st1 = st\<lparr> noiseFloor := adaptNoiseFloor (medianAmplitude amplitudes) (noiseFloor st),
                           animationFrameId := Some (nextFrameId fr) \<rparr>
            in (case classifyPeak fr maxAmplitude maxBin (noiseFloor st1) of
                  None \<Rightarrow> st1
                | Some new \<Rightarrow> st1\<lparr> peaks := recordPeak new (peaks st1) \<rparr>))))"




text \<open>
  \<^verbatim>\<open>stopAndAnalyze()\<close>. \<^verbatim>\<open>Array.prototype.sort\<close> is stable, as is \<open>sort_key\<close>;
  the comparator \<^verbatim>\<open>(a, b) => b.amplitude - a.amplitude\<close> orders by descending
  amplitude. The retained \<^verbatim>\<open>this.peaks\<close> is copied, not changed. The pending
  frame is cancelled and its handle cleared when the handle is truthy (not 0).
\<close>

definition finalPeaks :: "DetectedPeak list \<Rightarrow> DetectedPeak list" where
  "finalPeaks ps =
     sort_key timestamp
       (if length ps > MAX_PEAKS
        then take MAX_PEAKS (sort_key (\<lambda>p. - amplitude p) ps)
        else ps)"

definition stopAndAnalyze :: "UltrasonicListener \<Rightarrow> DetectedPeak list \<times> UltrasonicListener" where
  "stopAndAnalyze st =
     (finalPeaks (peaks st),
      st\<lparr> isRecording := False,
          animationFrameId := (if animationFrameId st = Some 0 then Some 0 else None) \<rparr>)"

definition getDetectedPattern :: "UltrasonicListener \<Rightarrow> PulseType list" where
  "getDetectedPattern st = map ptype (peaks st)"

section \<open>Teacher view: queue processing\<close>

text \<open>
  \<^verbatim>\<open>type QueueStatus\<close> and \<^verbatim>\<open>interface QueueEntry\<close> (the field \<^verbatim>\<open>id\<close> is named
  \<open>entry_id\<close>, \<^verbatim>\<open>matchCount\<close> and \<^verbatim>\<open>passed\<close> carry the prefix \<open>entry_\<close>; the
  timestamps and the diagnostic data are left out).
\<close>

datatype QueueStatus = Waiting | Ready | Emitting | Listening | Submitted | Verified | Failed

record 'n QueueEntry =
  entry_id :: string
  sessionId :: string
  studentId :: string
  studentName :: string
  status :: QueueStatus
  batchId :: "string option"
  config :: "'n EmitterConfig"
  emittedPattern :: "PulseType list option"
  detectedPattern :: "PulseType list option"
  entry_matchCount :: "nat option"
  entry_passed :: "bool option"

text \<open>
  \<^verbatim>\<open>getConfigKey\<close> is a template literal that joins the seven fields with
  underscores. JavaScript's conversion of a number to a string is a parameter
  \<open>numberToString\<close>; \<^verbatim>\<open>undefined\<close>, \<^verbatim>\<open>true\<close> and \<^verbatim>\<open>false\<close> print as these words.
\<close>

definition booleanToString :: "bool option \<Rightarrow> string" where
  "booleanToString b =
     (case b of None \<Rightarrow> ''undefined'' | Some True \<Rightarrow> ''true'' | Some False \<Rightarrow> ''false'')"

definition optionalNumberToString :: "('n \<Rightarrow> string) \<Rightarrow> 'n option \<Rightarrow> string" where
  "optionalNumberToString numberToString x =
     (case x of None \<Rightarrow> ''undefined'' | Some n \<Rightarrow> numberToString n)"

definition getConfigKey :: "('n \<Rightarrow> string) \<Rightarrow> 'n EmitterConfig \<Rightarrow> string" where
  "getConfigKey numberToString cfg =
     numberToString (volume cfg) @ ''_'' @ numberToString (freqLow cfg) @ ''_''
     @ numberToString (freqHigh cfg) @ ''_'' @ numberToString (pulseDuration cfg) @ ''_''
     @ numberToString (pulseGap cfg) @ ''_'' @ booleanToString (useOutputFilter cfg) @ ''_''
     @ optionalNumberToString numberToString (filterCutoff cfg)"

text \<open>
  What is assumed of the number format: distinct numbers print differently, no
  number prints with an underscore, and none prints as \<^verbatim>\<open>undefined\<close>.
\<close>

definition numberFormat :: "('n \<Rightarrow> string) \<Rightarrow> bool" where
  "numberFormat numberToString \<longleftrightarrow>
     inj numberToString
     \<and> (\<forall>n. CHR ''_'' \<notin> set (numberToString n))
     \<and> (\<forall>n. numberToString n \<noteq> ''undefined'')"

text \<open>
  The grouping loop of \<^verbatim>\<open>processQueue\<close>. The \<^verbatim>\<open>Map\<close> keeps its keys in insertion
  order, so it is a list of pairs: a new key is appended with an empty group, then
  the student is pushed on the group of its key.
\<close>

definition group_step ::
  "('n \<Rightarrow> string) \<Rightarrow> (string \<times> 'n QueueEntry list) list \<Rightarrow> 'n QueueEntry
     \<Rightarrow> (string \<times> 'n QueueEntry list) list" where
  "group_step numberToString configGroups student =
     (let key = getConfigKey numberToString (config student);
          groups1 = (if key \<notin> fst ` set configGroups then configGroups @ [(key, [])]
                     else configGroups)
      in map (\<lambda>(k, g). if k = key then (k, g @ [student]) else (k, g)) groups1)"

definition configGroups ::
  "('n \<Rightarrow> string) \<Rightarrow> 'n QueueEntry list \<Rightarrow> (string \<times> 'n QueueEntry list) list" where
  "configGroups numberToString students = foldl (group_step numberToString) [] students"

text \<open>
  \<^verbatim>\<open>processQueue(students)\<close> returns at once when a round is in progress or there
  are no students; otherwise it hands the groups to \<^verbatim>\<open>processBatch\<close> one after
  the other. The result is the list of batches in the order they are processed.
  The callers pass the entries of the queue whose status is \<^verbatim>\<open>ready\<close>.
\<close>

definition processQueue ::
  "('n \<Rightarrow> string) \<Rightarrow> bool \<Rightarrow> 'n QueueEntry list \<Rightarrow> (string \<times> 'n QueueEntry list) list" where
  "processQueue numberToString isProcessing students =
     (if isProcessing \<or> students = [] then [] else configGroups numberToString students)"

definition readyStudents :: "'n QueueEntry list \<Rightarrow> 'n QueueEntry list" where
  "readyStudents queue = filter (\<lambda>e. status e = Ready) queue"

definition sameBatch ::
  "(string \<times> 'n QueueEntry list) list \<Rightarrow> 'n QueueEntry \<Rightarrow> 'n QueueEntry \<Rightarrow> bool" where
  "sameBatch batches a b \<longleftrightarrow> (\<exists>k g. (k, g) \<in> set batches \<and> a \<in> set g \<and> b \<in> set g)"

text \<open>The invariant of the grouping loop.\<close>

definition grouped ::
  "('n \<Rightarrow> string) \<Rightarrow> (string \<times> 'n QueueEntry list) list \<Rightarrow> 'n QueueEntry list \<Rightarrow> bool" where
  "grouped ns groups students \<longleftrightarrow>
     distinct (map fst groups)
     \<and> (\<forall>k g. (k, g) \<in> set groups \<longrightarrow> (\<forall>s \<in> set g. getConfigKey ns (config s) = k))
     \<and> (\<forall>s \<in> set students. \<exists>g. (getConfigKey ns (config s), g) \<in> set groups \<and> s \<in> set g)"

subsection \<open>processBatch up to the emission\<close>

text \<open>
  \<^verbatim>\<open>processBatch\<close> from its start to the call of the emitter. Time is
  \<^verbatim>\<open>Date.now()\<close> in milliseconds. The environment gives the contents of
  \<^verbatim>\<open>queueRef.current\<close> at each time, by how many milliseconds the \<open>k\<close>-th timer
  of the batch fires after its nominal delay, whether the writes that mark the
  students as emitting succeed, and whether \<^verbatim>\<open>emitterRef.current\<close> is set. The
  code between two timers takes no time.
\<close>

definition HANDSHAKE_TIMEOUT :: int where "HANDSHAKE_TIMEOUT = 3000"

record 'n BatchEnv =
  queueAt :: "int \<Rightarrow> 'n QueueEntry list"
  lateness :: "nat \<Rightarrow> nat"
  emittingWritten :: bool
  emitterPresent :: bool

definition readyCount :: "'n QueueEntry list \<Rightarrow> string list \<Rightarrow> nat" where
  "readyCount queue studentIds =
     length (filter (\<lambda>e. entry_id e \<in> set studentIds \<and> status e = Listening) queue)"

text \<open>
  The \<^verbatim>\<open>while (Date.now() - startTime < HANDSHAKE_TIMEOUT)\<close> loop: \<open>t\<close> is the time of
  the current check and \<open>k\<close> counts the timers awaited so far. It returns
  \<^verbatim>\<open>allReady\<close>, the time at which the loop is left, and \<open>k\<close>.
\<close>

function handshake_loop ::
  "'n BatchEnv \<Rightarrow> string list \<Rightarrow> nat \<Rightarrow> int \<Rightarrow> int \<Rightarrow> nat \<Rightarrow> bool \<times> int \<times> nat" where
  "handshake_loop env studentIds n startTime t k =
     (if t - startTime < HANDSHAKE_TIMEOUT
      then (if readyCount (queueAt env t) studentIds = n
            then (True, t, k)
            else handshake_loop env studentIds n startTime (t + 50 + int (lateness env k)) (k + 1))
      else (False, t, k))"
  by pat_completeness auto
termination
  by (relation "measure (\<lambda>(env, studentIds, n, startTime, t, k).
        nat (startTime + HANDSHAKE_TIMEOUT - t))") auto

declare handshake_loop.simps [simp del]

text \<open>
  \<^verbatim>\<open>processBatch(students, configKey)\<close>. Reading \<^verbatim>\<open>students[0].config\<close> of an
  empty batch throws, outside the \<^verbatim>\<open>try\<close>. Inside it, a failed write of the
  status \<^verbatim>\<open>emitting\<close> is caught and the students are marked failed, with no
  handshake and no emission. Otherwise the handshake runs from \<open>startTime\<close>;
  after it the code logs how many students were ready, waits 100 ms and calls
  \<^verbatim>\<open>emitterRef.current?.emit\<close>, whatever \<^verbatim>\<open>allReady\<close> is.
\<close>

record HandshakeOutcome =
  allReady :: bool
  endedAt :: int
  sleeps :: nat
  readyAtEnd :: nat
  emitInvokedAt :: "int option"

datatype batch_result =
    EmptyBatchTypeError
  | MarkedFailed
  | Emission HandshakeOutcome

definition processBatch ::
  "'n BatchEnv \<Rightarrow> 'n QueueEntry list \<Rightarrow> int \<Rightarrow> batch_result" where
  "processBatch env students startTime =
     (if students = [] then EmptyBatchTypeError
      else if \<not> emittingWritten env then MarkedFailed
      else
        (let studentIds = map entry_id students in
         case handshake_loop env studentIds (length students) startTime startTime 0 of
           (ready, t, k) \<Rightarrow>
             Emission \<lparr> allReady = ready, endedAt = t, sleeps = k,
                        readyAtEnd = readyCount (queueAt env t) studentIds,
                        emitInvokedAt = (if emitterPresent env
                                         then Some (t + 100 + int (lateness env k))
                                         else None) \<rparr>))"

text \<open>
  The time of the \<open>k\<close>-th check of the loop condition, and the statement that every
  check before the \<open>k\<close>-th came before the timeout and found some student not
  listening.
\<close>

fun pollTime :: "'n BatchEnv \<Rightarrow> int \<Rightarrow> nat \<Rightarrow> int" where
  "pollTime env startTime 0 = startTime"
| "pollTime env startTime (Suc k) = pollTime env startTime k + 50 + int (lateness env k)"

definition polledBefore :: "'n BatchEnv \<Rightarrow> string list \<Rightarrow> nat \<Rightarrow> int \<Rightarrow> nat \<Rightarrow> bool" where
  "polledBefore env ids n startTime k \<longleftrightarrow>
     (\<forall>j<k. pollTime env startTime j - startTime < HANDSHAKE_TIMEOUT
            \<and> readyCount (queueAt env (pollTime env startTime j)) ids \<noteq> n)"

section \<open>Sample inputs\<close>


definition spikeFrame :: Frame where
  "spikeFrame = \<lparr> dataArray = replicate 3243 (Some (- 100)) @ [Some (- 40)]
                                @ replicate 852 (Some (- 100)),
                   sampleRate = 48000, now = 1020, nextFrameId = 7 \<rparr>"

definition spikeDetection :: DetectedPeak where
  "spikeDetection = \<lparr> frequency = 1216125 / 64, amplitude = - 40, timestamp = 1020,
                       ptype = H, snr = 60 \<rparr>"

definition quietListener :: "DetectedPeak list \<Rightarrow> UltrasonicListener" where
  "quietListener ps = \<lparr> analyserReady = True, isRecording = True, peaks = ps,
                         animationFrameId = Some 7, noiseFloor = - 100 \<rparr>"


definition busyListener :: UltrasonicListener where
  "busyListener = \<lparr> analyserReady = True, isRecording = True, peaks = [],
                     animationFrameId = Some 7, noiseFloor = - 50 \<rparr>"

definition crowdedListener :: UltrasonicListener where
  "crowdedListener =
     \<lparr> analyserReady = True, isRecording = True,
       peaks = map (\<lambda>i. \<lparr> frequency = 19000, amplitude = - real i, timestamp = real i,
                            ptype = H, snr = 100 - real i \<rparr>) [0 ..< 22],
       animationFrameId = Some 7, noiseFloor = - 50 \<rparr>"

definition samplePeak :: "real \<Rightarrow> real \<Rightarrow> real \<Rightarrow> DetectedPeak" where
  "samplePeak f a t = \<lparr> frequency = f, amplitude = a, timestamp = t,
                        ptype = (if f > FREQ_THRESHOLD then H else L), snr = a + 100 \<rparr>"

text \<open>
  The decimal numeral of a natural number, as JavaScript prints a non-negative
  integer below \<open>10\<^sup>2\<^sup>1\<close>, with the function that reads it back.
\<close>

definition digit :: "nat \<Rightarrow> char" where
  "digit d = ''0123456789'' ! d"

fun decimal :: "nat \<Rightarrow> string" where
  "decimal n = (if n < 10 then [digit n] else decimal (n div 10) @ [digit (n mod 10)])"

declare decimal.simps [simp del]

definition digitValue :: "char \<Rightarrow> nat" where
  "digitValue c = length (takeWhile (\<lambda>d. d \<noteq> c) ''0123456789'')"

definition readDecimal :: "string \<Rightarrow> nat" where
  "readDecimal s = foldl (\<lambda>a c. 10 * a + digitValue c) 0 s"

text \<open>Queue entries with whole-number settings, and two courses of a handshake.\<close>

definition sampleEntry :: "string \<Rightarrow> QueueStatus \<Rightarrow> nat EmitterConfig \<Rightarrow> nat QueueEntry" where
  "sampleEntry sid st cfg =
     \<lparr> entry_id = sid, sessionId = ''s1'', studentId = sid, studentName = sid, status = st,
       batchId = None, config = cfg, emittedPattern = None, detectedPattern = None,
       entry_matchCount = None, entry_passed = None \<rparr>"

definition loudConfig :: "nat EmitterConfig" where
  "loudConfig = \<lparr> volume = 1, freqLow = 17500, freqHigh = 19000, pulseDuration = 100,
                  pulseGap = 80, useOutputFilter = Some True, filterCutoff = Some 15000 \<rparr>"

definition longGapConfig :: "nat EmitterConfig" where
  "longGapConfig = \<lparr> volume = 1, freqLow = 17500, freqHigh = 19000, pulseDuration = 100,
                     pulseGap = 90, useOutputFilter = Some True, filterCutoff = Some 15000 \<rparr>"

definition sampleQueue :: "nat QueueEntry list" where
  "sampleQueue = [sampleEntry ''a'' Ready loudConfig, sampleEntry ''c'' Ready longGapConfig,
                  sampleEntry ''w'' Waiting loudConfig, sampleEntry ''b'' Ready loudConfig]"

definition promptEnv :: "nat BatchEnv" where
  "promptEnv =
     \<lparr> queueAt = (\<lambda>t. if t \<ge> 1120
                      then [sampleEntry ''a'' Listening loudConfig,
                            sampleEntry ''b'' Listening loudConfig]
                      else [sampleEntry ''a'' Listening loudConfig,
                            sampleEntry ''b'' Emitting loudConfig]),
       lateness = (\<lambda>k. 0),
       emittingWritten = True,
       emitterPresent = True \<rparr>"

definition stragglerEnv :: "nat BatchEnv" where
  "stragglerEnv =
     \<lparr> queueAt = (\<lambda>t. [sampleEntry ''a'' Listening loudConfig,
                        sampleEntry ''b'' Emitting loudConfig]),
       lateness = (\<lambda>k. 0),
       emittingWritten = True,
       emitterPresent = True \<rparr>"

definition lateEnv :: "nat BatchEnv" where
  "lateEnv =
     \<lparr> queueAt = (\<lambda>t. [sampleEntry ''a'' Listening loudConfig,
                        sampleEntry ''b'' Emitting loudConfig]),
       lateness = (\<lambda>k. 7),
       emittingWritten = True,
       emitterPresent = True \<rparr>"

definition sampleBatch :: "nat QueueEntry list" where
  "sampleBatch = [sampleEntry ''a'' Emitting loudConfig, sampleEntry ''b'' Emitting loudConfig]"

section \<open>Properties of the pattern utilities\<close>

lemma match_loop_length:
  "length (match_loop emitted detected ei di ms) =
     length ms + greedy_earliest_match (drop ei emitted) (drop di detected)"
proof (induction emitted detected ei di ms rule: match_loop.induct)
  case (1 emitted detected ei di ms)
  show ?case
  proof (cases "ei < length emitted \<and> di < length detected")
    case False
    then have "drop ei emitted = [] \<or> drop di detected = []" by auto
    then have "greedy_earliest_match (drop ei emitted) (drop di detected) = 0"
      by (cases "drop ei emitted") auto
    with False show ?thesis by (subst match_loop.simps) auto
  next
    case True
    then have e: "drop ei emitted = emitted ! ei # drop (Suc ei) emitted"
      and d: "drop di detected = detected ! di # drop (Suc di) detected"
      by (simp_all add: Cons_nth_drop_Suc)
    show ?thesis
    proof (cases "emitted ! ei = detected ! di")
      case eq: True
      from "1.IH"(1)[OF True eq] True eq show ?thesis
        by (subst match_loop.simps) (simp add: e d)
    next
      case neq: False
      from "1.IH"(2)[OF True neq] True neq show ?thesis
        by (subst match_loop.simps) (simp add: e d)
    qed
  qed
qed

lemma matchCount_greedy:
  "matchCount (comparePatterns emitted detected) = greedy_earliest_match emitted detected"
  by (simp add: comparePatterns_def Let_def match_loop_length)

lemma passed_iff:
  "passed (comparePatterns emitted detected) =
     (matchCount (comparePatterns emitted detected) \<ge> PASS_THRESHOLD)"
  by (simp add: comparePatterns_def Let_def)

lemma greedy_le_length: "greedy_earliest_match es ds \<le> length es"
  by (induction es ds rule: greedy_earliest_match.induct) auto

lemma greedy_exhausted_append:
  "greedy_earliest_match es ds = length es \<Longrightarrow>
   greedy_earliest_match es (ds @ noise) = length es"
proof (induction es ds rule: greedy_earliest_match.induct)
  case (3 e es d ds)
  then show ?case
    using greedy_le_length[of es ds] by (auto split: if_splits)
qed auto

lemma greedy_unrelated_nil:
  "set noise \<inter> set es = {} \<Longrightarrow> greedy_earliest_match es noise = 0"
  by (induction es noise rule: greedy_earliest_match.induct) auto

lemma greedy_unrelated_append:
  "set noise \<inter> set es = {} \<Longrightarrow>
   greedy_earliest_match es (ds @ noise) = greedy_earliest_match es ds"
proof (induction es ds rule: greedy_earliest_match.induct)
  case (1 ds)
  then show ?case by simp
next
  case (2 e es)
  then show ?case using greedy_unrelated_nil[of noise "e # es"] by simp
next
  case (3 e es d ds)
  then show ?case by auto
qed

lemma greedy_append_mono:
  "greedy_earliest_match es ds \<le> greedy_earliest_match es (ds @ noise)"
  by (induction es ds rule: greedy_earliest_match.induct) auto

lemma generatePattern_loop_length:
  "length (generatePattern_loop random len i pattern) = length pattern + nat (len - i)"
proof (induction random len i pattern rule: generatePattern_loop.induct)
  case (1 random len i pattern)
  show ?case
  proof (cases "i < len")
    case True
    with "1.IH"[OF True] show ?thesis
      by (subst generatePattern_loop.simps) (simp add: nat_diff_distrib')
  next
    case False
    then show ?thesis by (subst generatePattern_loop.simps) simp
  qed
qed

lemma generatePattern_loop_set:
  "set (generatePattern_loop random len i pattern) \<subseteq> set pattern \<union> {H, L}"
proof (induction random len i pattern rule: generatePattern_loop.induct)
  case (1 random len i pattern)
  show ?case
  proof (cases "i < len")
    case True
    with "1.IH"[OF True] show ?thesis
      by (subst generatePattern_loop.simps) auto
  next
    case False
    then show ?thesis by (subst generatePattern_loop.simps) auto
  qed
qed

text \<open>
  C1. For all emitted and detected sequences, the \<open>matchCount\<close> returned by
  \<open>comparePatterns\<close> is the greedy earliest-match count of the single forward pass
  with two pointers, \<open>passed\<close> holds exactly when \<open>matchCount \<ge> N - 1\<close> with \<open>N = 6\<close>,
  and for emitted HLHHL and detected LHHLHHLLL the count is 5.
\<close>

theorem comparePatterns_greedy_two_pointer:
  "matchCount (comparePatterns emitted detected) = greedy_earliest_match emitted detected
   \<and> passed (comparePatterns emitted detected)
       = (matchCount (comparePatterns emitted detected) \<ge> 6 - 1)
   \<and> matchCount (comparePatterns [H, L, H, H, L] [L, H, H, L, H, H, L, L, L]) = 5"
proof (intro conjI)
  show "matchCount (comparePatterns emitted detected) = greedy_earliest_match emitted detected"
    by (rule matchCount_greedy)
  show "passed (comparePatterns emitted detected)
          = (matchCount (comparePatterns emitted detected) \<ge> 6 - 1)"
    by (simp add: passed_iff PASS_THRESHOLD_def NUM_PULSES_def)
  show "matchCount (comparePatterns [H, L, H, H, L] [L, H, H, L, H, H, L, L, L]) = 5"
    by (simp add: matchCount_greedy)
qed

theorem comparePatterns_greedy_two_pointer_witness:
  "matchCount (comparePatterns [H, H, H, H, H] [L, H, H, H, H, H, H, L]) = 5
   \<and> passed (comparePatterns [H, H, H, H, H] [L, H, H, H, H, H, H, L])"
  using comparePatterns_greedy_two_pointer [of "[H, H, H, H, H]" "[L, H, H, H, H, H, H, L]"]
  by simp

text \<open>
  C5. The match count never exceeds the length of the emitted pattern, and it is
  stable under appending symbols to the end of the detected sequence: once the
  emitted pattern has been exhausted by the match, any appended symbols leave the
  count unchanged; so do appended symbols that do not occur in the emitted pattern.
  In every case appending cannot lower the count.
\<close>

theorem matchCount_bounded_stable_under_appended_noise:
  "matchCount (comparePatterns emitted detected) \<le> length emitted
   \<and> (matchCount (comparePatterns emitted detected) = length emitted \<longrightarrow>
        matchCount (comparePatterns emitted (detected @ noise))
          = matchCount (comparePatterns emitted detected))
   \<and> (set noise \<inter> set emitted = {} \<longrightarrow>
        matchCount (comparePatterns emitted (detected @ noise))
          = matchCount (comparePatterns emitted detected))
   \<and> matchCount (comparePatterns emitted detected)
        \<le> matchCount (comparePatterns emitted (detected @ noise))"
  by (simp add: matchCount_greedy greedy_le_length greedy_exhausted_append
        greedy_unrelated_append greedy_append_mono)

theorem matchCount_bounded_stable_under_appended_noise_witness:
  "matchCount (comparePatterns [H, L, H] [H, H, L, H]) = length [H, L, H]
   \<and> matchCount (comparePatterns [H, L, H] ([H, H, L, H] @ [L, H, Unknown])) = 3
   \<and> set [Unknown, Unknown] \<inter> set [H, L, H] = {}
   \<and> matchCount (comparePatterns [H, L, H] ([L, H] @ [Unknown, Unknown])) = 1"
  using matchCount_bounded_stable_under_appended_noise
          [of "[H, L, H]" "[H, H, L, H]" "[L, H, Unknown]"]
        matchCount_bounded_stable_under_appended_noise
          [of "[H, L, H]" "[L, H]" "[Unknown, Unknown]"]
  by (simp add: matchCount_greedy)

text \<open>
  C8. For every length \<open>n \<ge> 0\<close>, \<open>generatePattern\<close> returns exactly \<open>n\<close> symbols, each
  \<open>H\<close> or \<open>L\<close> and never the sentinel; with the default argument it returns exactly
  \<open>NUM_PULSES = 6\<close> symbols.
\<close>

theorem generatePattern_length_and_alphabet:
  "0 \<le> n \<Longrightarrow>
     length (generatePattern random n) = nat n
     \<and> set (generatePattern random n) \<subseteq> {H, L}
     \<and> Unknown \<notin> set (generatePattern random n)
     \<and> length (generatePattern_default random) = 6
     \<and> NUM_PULSES = 6"
proof (intro conjI)
  show "length (generatePattern random n) = nat n"
    by (simp add: generatePattern_def generatePattern_loop_length)
  show sub: "set (generatePattern random n) \<subseteq> {H, L}"
    using generatePattern_loop_set[of random n 0 "[]"] by (simp add: generatePattern_def)
  show "Unknown \<notin> set (generatePattern random n)"
    using sub by auto
  show "length (generatePattern_default random) = 6"
    by (simp add: generatePattern_default_def generatePattern_def
          generatePattern_loop_length NUM_PULSES_def)
  show "NUM_PULSES = 6" by (simp add: NUM_PULSES_def)
qed

theorem generatePattern_length_and_alphabet_witness:
  "(0::int) \<le> 3
   \<and> generatePattern (\<lambda>k. if even k then 1/4 else 3/4) 3 = [H, L, H]
   \<and> length (generatePattern (\<lambda>k. if even k then 1/4 else 3/4) 3) = nat 3"
proof -
  have h: "(0::int) \<le> 3" by simp
  have g: "generatePattern (\<lambda>k. if even k then 1/4 else 3/4) 3 = [H, L, H]"
    by (simp add: generatePattern_def generatePattern_loop.simps)
  show ?thesis
    using h g generatePattern_length_and_alphabet [OF h, of "\<lambda>k. if even k then 1/4 else 3/4"]
    by simp
qed

text \<open>
  C10. The pass threshold is the global constant \<open>NUM_PULSES - 1 = 5\<close>, whatever the
  length of the emitted argument: an emitted pattern shorter than 5 never passes,
  not even against an identical detected sequence.
\<close>

theorem short_emitted_pattern_never_passes:
  "PASS_THRESHOLD = NUM_PULSES - 1 \<and> PASS_THRESHOLD = 5
   \<and> passed (comparePatterns emitted detected)
       = (matchCount (comparePatterns emitted detected) \<ge> PASS_THRESHOLD)
   \<and> (length emitted < 5 \<longrightarrow> \<not> passed (comparePatterns emitted detected))
   \<and> (length emitted < 5 \<longrightarrow> \<not> passed (comparePatterns emitted emitted))"
  using greedy_le_length[of emitted detected] greedy_le_length[of emitted emitted]
  by (simp add: passed_iff matchCount_greedy PASS_THRESHOLD_def NUM_PULSES_def)

theorem short_emitted_pattern_never_passes_witness:
  "length [H, L, H, H] < 5
   \<and> matchCount (comparePatterns [H, L, H, H] [H, L, H, H]) = 4
   \<and> \<not> passed (comparePatterns [H, L, H, H] [H, L, H, H])"
  using short_emitted_pattern_never_passes [of "[H, L, H, H]" "[H, L, H, H]"]
  by (simp add: matchCount_greedy)

section \<open>Properties of the emitter\<close>

lemma emit_loop_freqs:
  "fst (emit_loop e pattern cfg useFilter i t fs ps) =
     fs @ map (\<lambda>s. if s = H then freqHigh cfg else freqLow cfg) (drop i pattern)"
proof (induction e pattern cfg useFilter i t fs ps rule: emit_loop.induct)
  case (1 e pattern cfg useFilter i t fs ps)
  show ?case
  proof (cases "i < length pattern")
    case True
    then have d: "drop i pattern = pattern ! i # drop (Suc i) pattern"
      by (simp add: Cons_nth_drop_Suc)
    from "1.IH"[OF True] True show ?thesis
      by (subst emit_loop.simps) (simp add: d)
  next
    case False
    then show ?thesis by (subst emit_loop.simps) simp
  qed
qed

lemma emit_loop_pulses:
  "map pulse_freq (snd (emit_loop e pattern cfg useFilter i t fs ps)) =
     map pulse_freq ps
       @ map (\<lambda>s. if s = H then freqHigh cfg else freqLow cfg) (drop i pattern)"
proof (induction e pattern cfg useFilter i t fs ps rule: emit_loop.induct)
  case (1 e pattern cfg useFilter i t fs ps)
  show ?case
  proof (cases "i < length pattern")
    case True
    then have d: "drop i pattern = pattern ! i # drop (Suc i) pattern"
      by (simp add: Cons_nth_drop_Suc)
    from "1.IH"[OF True] True show ?thesis
      by (subst emit_loop.simps) (simp add: d schedulePulse_def)
  next
    case False
    then show ?thesis by (subst emit_loop.simps) simp
  qed
qed

lemma emit_init_ok:
  "audioContext e0 \<or> contextAvailable env \<Longrightarrow>
   \<exists>e1. (if \<not> audioContext e0 then init env e0 else Inr e0) = Inr e1"
  by (auto simp: init_def Let_def)

text \<open>
  C9. Whenever an audio context is at hand (already created, or available to
  \<open>init\<close>), \<open>emit\<close> returns, and the returned list has the length of the pattern,
  with \<open>freqHigh\<close> at the positions of \<open>H\<close> and \<open>freqLow\<close> at the positions of \<open>L\<close>.
  The pulses scheduled are the warm-up pulse followed by one pulse per returned
  frequency: the warm-up frequency is scheduled but is not part of the returned list.
\<close>

theorem emit_echoes_pattern:
  assumes "audioContext e0 \<or> contextAvailable env"
  shows "\<exists>out. emit env e0 pattern cfg = Inr out
           \<and> emittedFreqs out
               = map (\<lambda>s. if s = H then freqHigh cfg else freqLow cfg) pattern
           \<and> length (emittedFreqs out) = length pattern
           \<and> (\<forall>i < length pattern.
                 (pattern ! i = H \<longrightarrow> emittedFreqs out ! i = freqHigh cfg)
               \<and> (pattern ! i = L \<longrightarrow> emittedFreqs out ! i = freqLow cfg))
           \<and> map pulse_freq (scheduledPulses out) = WAKE_UP_FREQ # emittedFreqs out"
proof -
  from emit_init_ok[OF assms] obtain e1 where
    e1: "(if \<not> audioContext e0 then init env e0 else Inr e0) = Inr e1" by blast
  show ?thesis
    unfolding emit_def e1
    using emit_loop_freqs[of _ pattern cfg _ 0 _ "[]"]
          emit_loop_pulses[of _ pattern cfg _ 0]
    by (auto simp: Let_def split_def schedulePulse_def)
qed

theorem emit_echoes_pattern_witness:
  "\<exists>out. emit \<lparr> contextAvailable = True, wakeLockGranted = False, currentTime = 0 \<rparr>
              \<lparr> audioContext = False, outputFilter = None, wakeLock = False \<rparr>
              [H, L, L]
              \<lparr> volume = 0.5, freqLow = 17500, freqHigh = 19000, pulseDuration = 100,
                pulseGap = 80, useOutputFilter = None, filterCutoff = None \<rparr> = Inr out
         \<and> emittedFreqs out = [19000, 17500, 17500]
         \<and> map pulse_freq (scheduledPulses out) = [17500, 19000, 17500, 17500]"
  using emit_echoes_pattern
          [of "\<lparr> audioContext = False, outputFilter = None, wakeLock = False \<rparr>"
              "\<lparr> contextAvailable = True, wakeLockGranted = False, currentTime = 0 \<rparr>"
              "[H, L, L]"
              "\<lparr> volume = 0.5, freqLow = 17500, freqHigh = 19000, pulseDuration = 100,
                 pulseGap = 80, useOutputFilter = None, filterCutoff = None \<rparr>"]
  by (auto simp: WAKE_UP_FREQ_def)

section \<open>Properties of the listener\<close>

subsection \<open>Evaluating double-precision operations\<close>

lemma binade_eqI:
  assumes "2 powi e \<le> \<bar>x\<bar>" and "\<bar>x\<bar> < 2 powi (e + 1)" and "- 1022 \<le> e"
  shows "binade x = e"
proof -
  have pos: "0 < \<bar>x\<bar>" using assms(1) by (smt (verit) zero_less_power_int)
  have p: "(2::real) powr (of_int k) = 2 powi k" for k
    by (simp add: powr_real_of_int')
  have "2 powr (of_int e) \<le> \<bar>x\<bar>" using assms(1) by (simp only: p)
  then have lo: "of_int e \<le> log 2 \<bar>x\<bar>" using pos by (simp add: le_log_iff)
  have "\<bar>x\<bar> < 2 powr (of_int (e + 1))" using assms(2) by (simp only: p)
  then have "log 2 \<bar>x\<bar> < of_int (e + 1)" using pos by (simp only: log_less_iff)
  then have hi: "log 2 \<bar>x\<bar> < of_int e + 1" by simp
  from lo hi have "\<lfloor>log 2 \<bar>x\<bar>\<rfloor> = e" by linarith
  with assms(3) show ?thesis by (simp add: binade_def)
qed

lemma fl_at:
  assumes "2 powi e \<le> \<bar>x\<bar>" and "\<bar>x\<bar> < 2 powi (e + 1)" and "- 1022 \<le> e"
  shows "fl x = of_int (rne (x * 2 powi (52 - e))) * 2 powi (e - 52)"
proof -
  have "x \<noteq> 0" using assms(1) by (smt (verit) zero_less_power_int abs_zero)
  then show ?thesis by (simp add: fl_def binade_eqI[OF assms])
qed



text \<open>the 48 kHz frame geometry\<close>

lemma binSize_48k: "sampleRate fr = 48000 \<Longrightarrow> binSize fr = 375 / 64"
  unfolding binSize_def ddiv_def FFT_SIZE_def
  by (subst fl_at[where e = 2]) (simp_all add: rne_def)

lemma lowBin_48k: "sampleRate fr = 48000 \<Longrightarrow> lowBin fr = 2816"
  unfolding lowBin_def ddiv_def BANDPASS_LOW_def
  by (subst fl_at[where e = 11]) (simp_all add: rne_def binSize_48k)

lemma highBin_48k: "sampleRate fr = 48000 \<Longrightarrow> highBin fr = 3584"
  unfolding highBin_def ddiv_def BANDPASS_HIGH_def
  by (subst fl_at[where e = 11]) (simp_all add: rne_def binSize_48k)


subsection \<open>Noise floor\<close>



lemma scan_foldl:
  "foldl (scan_step dat) (amps, mx, mb) is =
     (amps @ map ((!) dat) is, snd (foldl (scan_step dat) (amps, mx, mb) is))"
proof (induction "is" arbitrary: amps mx mb)
  case Nil
  show ?case by simp
next
  case (Cons i "is")
  show ?case
    using Cons.IH[of "amps @ [dat ! i]"] by (simp add: scan_step_def)
qed

lemma scanBand_amplitudes:
  "fst (scanBand fr) =
     map ((!) (dataArray fr)) [lowBin fr ..< min (highBin fr + 1) (length (dataArray fr))]"
  unfolding scanBand_def by (subst scan_foldl) simp






















subsection \<open>Peak merging\<close>

lemma rne_le: "y \<le> of_int N \<Longrightarrow> rne y \<le> N"
  unfolding rne_def Let_def by (auto; linarith)

lemma fl_le_pow2:
  assumes "x \<le> 2 powi k" and "- 1022 \<le> k"
  shows "fl x \<le> 2 powi k"
proof (cases "x \<le> 0")
  case True
  show ?thesis
  proof (cases "x = 0")
    case True
    then show ?thesis by (simp add: fl_def)
  next
    case False
    have "x * 2 powi (52 - binade x) \<le> of_int 0"
      using True by (simp add: mult_le_0_iff)
    then have "rne (x * 2 powi (52 - binade x)) \<le> 0" by (rule rne_le)
    then have "fl x \<le> 0"
      using False by (simp add: fl_def mult_le_0_iff)
    also have "\<dots> \<le> 2 powi k" by simp
    finally show ?thesis .
  qed
next
  case False
  then have pos: "0 < x" by simp
  have p: "(2::real) powr (of_int j) = 2 powi j" for j
    by (simp add: powr_real_of_int')
  have "x \<le> 2 powr (of_int k)" using assms(1) by (simp only: p)
  then have "log 2 x \<le> of_int k" using pos by (simp add: log_le_iff)
  then have "\<lfloor>log 2 \<bar>x\<bar>\<rfloor> \<le> k" using pos by (simp add: floor_le_iff)
  then have ek: "binade x \<le> k" using assms(2) by (simp add: binade_def)
  define n where "n = nat (k + 52 - binade x)"
  have n: "int n = k + 52 - binade x" using ek by (simp add: n_def)
  have s: "(2::real) powi k * 2 powi (52 - binade x) = of_int (2 ^ n)"
  proof -
    have "(2::real) powi k * 2 powi (52 - binade x) = 2 powi (k + (52 - binade x))"
      by (simp add: power_int_add)
    also have "k + (52 - binade x) = int n" using n by simp
    also have "(2::real) powi (int n) = of_int (2 ^ n)" by simp
    finally show ?thesis .
  qed
  have "x * 2 powi (52 - binade x) \<le> 2 powi k * 2 powi (52 - binade x)"
    using assms(1) by (simp add: mult_right_mono)
  then have "rne (x * 2 powi (52 - binade x)) \<le> 2 ^ n"
    unfolding s by (rule rne_le)
  then have le: "(of_int (rne (x * 2 powi (52 - binade x))) :: real) \<le> of_int (2 ^ n)"
    by (simp only: of_int_le_iff)
  have "(of_int (rne (x * 2 powi (52 - binade x))) :: real) * 2 powi (binade x - 52)
          \<le> of_int (2 ^ n) * 2 powi (binade x - 52)"
    using le by (simp add: mult_right_mono)
  also have "\<dots> = ((2::real) powi k * 2 powi (52 - binade x)) * 2 powi (binade x - 52)"
    by (simp only: s)
  also have "\<dots> = (2::real) powi k * (2 powi (52 - binade x) * 2 powi (binade x - 52))"
    by (simp only: mult.assoc)
  also have "(2::real) powi (52 - binade x) * 2 powi (binade x - 52) = 2 powi 0"
    by (subst power_int_add[symmetric]) simp_all
  finally show ?thesis using pos by (simp add: fl_def)
qed

lemma minSNRdB_le: "minSNRdB \<le> 32"
proof -
  have "log 10 (SNR_THRESHOLD) \<le> 1"
    by (simp add: SNR_THRESHOLD_def log_le_iff)
  then have "fl (log 10 SNR_THRESHOLD) \<le> 2 powi 0"
    by (intro fl_le_pow2) simp_all
  then have "20 * fl (log 10 SNR_THRESHOLD) \<le> 2 powi 5" by simp
  then have "fl (20 * fl (log 10 SNR_THRESHOLD)) \<le> 2 powi 5"
    by (intro fl_le_pow2) simp_all
  then show ?thesis by (simp add: minSNRdB_def dmul_def)
qed


lemma scan_no_update:
  "\<forall>i\<in>set is. dat ! i \<le> mx \<Longrightarrow> snd (foldl (scan_step dat) (amps, mx, mb) is) = (mx, mb)"
proof (induction "is" arbitrary: amps)
  case Nil
  show ?case by simp
next
  case (Cons i "is")
  then have "\<not> dat ! i > mx" by auto
  then have "scan_step dat (amps, mx, mb) i = (amps @ [dat ! i], mx, mb)"
    by (simp add: scan_step_def)
  with Cons show ?case by simp
qed

lemma scan_unique_max:
  assumes "j \<in> set is" and "mx < dat ! j" and "\<forall>i\<in>set is. i \<noteq> j \<longrightarrow> dat ! i < dat ! j"
  shows "snd (foldl (scan_step dat) (amps, mx, mb) is) = (dat ! j, j)"
  using assms
proof (induction "is" arbitrary: amps mx mb)
  case Nil
  then show ?case by simp
next
  case (Cons i "is")
  show ?case
  proof (cases "i = j")
    case True
    have rest: "\<forall>i'\<in>set is. dat ! i' \<le> dat ! j"
      using Cons.prems(3) by (metis list.set_intros(2) order_less_imp_le order_refl)
    have "scan_step dat (amps, mx, mb) i = (amps @ [dat ! j], dat ! j, j)"
      using True Cons.prems(2) by (simp add: scan_step_def)
    then show ?thesis
      by (simp add: scan_no_update[OF rest])
  next
    case False
    with Cons.prems have j: "j \<in> set is" and lt: "dat ! i < dat ! j"
      and others: "\<forall>i'\<in>set is. i' \<noteq> j \<longrightarrow> dat ! i' < dat ! j"
      by auto
    have mx': "(if dat ! i > mx then dat ! i else mx) < dat ! j"
      using lt Cons.prems(2) by simp
    have "scan_step dat (amps, mx, mb) i
            = (amps @ [dat ! i], if dat ! i > mx then dat ! i else mx,
               if dat ! i > mx then i else mb)"
      by (simp add: scan_step_def)
    then show ?thesis
      using Cons.IH[OF j mx' others] by simp
  qed
qed

lemma outlier_nth:
  "i < a + 1 + b \<Longrightarrow> (replicate a x @ [y] @ replicate b x) ! i = (if i = a then y else x)"
  by (auto simp: nth_append nth_Cons')

lemma outlier_band:
  assumes "lo \<le> a" and "a < hi" and "hi \<le> a + 1 + b"
  shows "map ((!) (replicate a x @ [y] @ replicate b x)) [lo ..< hi]
           = replicate (a - lo) x @ [y] @ replicate (hi - a - 1) x"
proof (rule nth_equalityI)
  show "length (map ((!) (replicate a x @ [y] @ replicate b x)) [lo ..< hi])
          = length (replicate (a - lo) x @ [y] @ replicate (hi - a - 1) x)"
    using assms by simp
next
  fix i assume "i < length (map ((!) (replicate a x @ [y] @ replicate b x)) [lo ..< hi])"
  then have i: "i < hi - lo" by simp
  have l: "map ((!) (replicate a x @ [y] @ replicate b x)) [lo ..< hi] ! i
             = (replicate a x @ [y] @ replicate b x) ! (lo + i)"
    using i by simp
  have "lo + i < a + 1 + b" using i assms by simp
  then have l2: "(replicate a x @ [y] @ replicate b x) ! (lo + i) = (if lo + i = a then y else x)"
    by (rule outlier_nth)
  have "i < (a - lo) + 1 + (hi - a - 1)" using i assms by simp
  then have r: "(replicate (a - lo) x @ [y] @ replicate (hi - a - 1) x) ! i
                  = (if i = a - lo then y else x)"
    by (rule outlier_nth)
  have "lo + i = a \<longleftrightarrow> i = a - lo" using assms(1) by auto
  with l l2 r show "map ((!) (replicate a x @ [y] @ replicate b x)) [lo ..< hi] ! i
                      = (replicate (a - lo) x @ [y] @ replicate (hi - a - 1) x) ! i"
    by simp
qed

lemma sort_outlier:
  assumes "x < (y::'a::linorder)"
  shows "sort (replicate a x @ [y] @ replicate b x) = replicate (a + b) x @ [y]"
proof (rule properties_for_sort)
  show "mset (replicate (a + b) x @ [y]) = mset (replicate a x @ [y] @ replicate b x)"
    by (simp add: replicate_add)
  show "sorted (replicate (a + b) x @ [y])"
    using assms by (auto simp: sorted_append)
qed

lemma spikeFrame_scan:
  "scanBand spikeFrame
     = (replicate 427 (Some (- 100)) @ [Some (- 40)] @ replicate 341 (Some (- 100)),
        Some (- 40), 3243)"
proof -
  let ?dat = "replicate 3243 (Some (- 100)) @ [Some (- 40)] @ replicate 852 (Some (- 100 :: real))"
  have sr: "sampleRate spikeFrame = 48000" by (simp add: spikeFrame_def)
  have dat: "dataArray spikeFrame = ?dat" by (simp add: spikeFrame_def)
  have up: "min (highBin spikeFrame + 1) (length ?dat) = 3585"
    by (simp add: highBin_48k[OF sr])
  have nth: "?dat ! i = (if i = 3243 then Some (- 40) else Some (- 100))" if "i < 4096" for i
    using outlier_nth[of i 3243 852 "Some (- 100)" "Some (- 40)"] that by simp
  have nth': "(replicate 3243 (Some (- 100)) @ Some (- 40) # replicate 852 (Some (- 100 :: real))) ! i
                = (if i = 3243 then Some (- 40) else Some (- 100))" if "i < 4096" for i
    using nth[OF that] by simp
  have "fst (scanBand spikeFrame) = map ((!) ?dat) [2816 ..< 3585]"
    unfolding scanBand_amplitudes dat up lowBin_48k[OF sr] ..
  also have "\<dots> = replicate (3243 - 2816) (Some (- 100)) @ [Some (- 40)]
                      @ replicate (3585 - 3243 - 1) (Some (- 100))"
    by (rule outlier_band) simp_all
  finally have amps: "fst (scanBand spikeFrame)
      = replicate 427 (Some (- 100)) @ [Some (- 40)] @ replicate 341 (Some (- 100))"
    by simp
  have "snd (scanBand spikeFrame) = (?dat ! 3243, 3243)"
    unfolding scanBand_def dat up lowBin_48k[OF sr]
  proof (rule scan_unique_max)
    show "3243 \<in> set [2816 ..< 3585]" by (simp del: upt_rec_numeral)
    show "None < ?dat ! 3243" by (simp add: nth')
    show "\<forall>i\<in>set [2816 ..< 3585]. i \<noteq> 3243 \<longrightarrow> ?dat ! i < ?dat ! 3243"
      by (simp add: nth' del: upt_rec_numeral)
  qed
  then have mx: "snd (scanBand spikeFrame) = (Some (- 40), 3243)"
    by (simp add: nth')
  from amps mx show ?thesis
    by (metis prod.collapse)
qed

lemma spikeFrame_median:
  "medianAmplitude (replicate 427 (Some (- 100)) @ [Some (- 40)] @ replicate 341 (Some (- 100 :: real)))
     = Some (- 100)"
proof -
  let ?xs = "replicate 427 (Some (- 100)) @ [Some (- 40)] @ replicate 341 (Some (- 100 :: real))"
  have srt: "sort ?xs = replicate (427 + 341) (Some (- 100)) @ [Some (- 40)]"
    by (rule sort_outlier) simp
  have len: "length ?xs div 2 = 384" by simp
  have mid: "(replicate (427 + 341) (Some (- 100 :: real)) @ [Some (- 40)]) ! 384 = Some (- 100)"
    by (simp add: nth_append)
  have ne: "?xs \<noteq> []" by simp
  show ?thesis
    unfolding medianAmplitude_def srt len mid using ne by simp
qed


lemma spike_arith:
  "dsub (- 40) (- 100) = 60"
  "dmul (real 3243) (375 / 64) = 1216125 / 64"
  "dsub (1216125 / 64) FREQ_HIGH = 125 / 64"
proof -
  show "dsub (- 40) (- 100) = 60"
    unfolding dsub_def by (subst fl_at[where e = 5]) (simp_all add: rne_def)
  show "dmul (real 3243) (375 / 64) = 1216125 / 64"
    unfolding dmul_def by (subst fl_at[where e = 14]) (simp_all add: rne_def)
  show "dsub (1216125 / 64) FREQ_HIGH = 125 / 64"
    unfolding dsub_def FREQ_HIGH_def by (subst fl_at[where e = 0]) (simp_all add: rne_def)
qed

lemma spike_classified:
  "classifyPeak spikeFrame (Some (- 40)) 3243
     (adaptNoiseFloor (medianAmplitude (fst (scanBand spikeFrame))) (noiseFloor (quietListener ps)))
     = Some spikeDetection"
proof -
  have sr: "sampleRate spikeFrame = 48000" by (simp add: spikeFrame_def)
  have nf: "adaptNoiseFloor (Some (- 100)) (noiseFloor (quietListener ps)) = - 100"
    by (simp add: adaptNoiseFloor_def quietListener_def)
  have thr: "minSNRdB \<le> 60" using minSNRdB_le by simp
  have cl: "classifyPeak spikeFrame (Some (- 40)) 3243 (- 100) = Some spikeDetection"
    unfolding classifyPeak_def binSize_48k[OF sr] spike_arith option.case Let_def
    using thr by (simp add: spikeDetection_def FREQ_TOLERANCE_def spikeFrame_def)
  show ?thesis
    unfolding spikeFrame_scan fst_conv spikeFrame_median nf by (rule cl)
qed

lemma peaks_analyzeLoop:
  assumes "isRecording st" "analyserReady st"
    and "scanBand fr = (amplitudes, maxAmplitude, maxBin)"
  shows "peaks (analyzeLoop fr st)
     = (case classifyPeak fr maxAmplitude maxBin
               (adaptNoiseFloor (medianAmplitude amplitudes) (noiseFloor st)) of
          None \<Rightarrow> peaks st | Some new \<Rightarrow> recordPeak new (peaks st))"
  using assms by (auto simp: analyzeLoop_def Let_def split: option.splits)

lemma findIndex_Some:
  "findIndex P xs = Some k \<Longrightarrow> k < length xs \<and> P (xs ! k) \<and> (\<forall>j<k. \<not> P (xs ! j))"
proof (induction xs arbitrary: k)
  case Nil
  then show ?case by simp
next
  case (Cons x xs)
  show ?case
  proof (cases "P x")
    case True
    with Cons.prems show ?thesis by simp
  next
    case False
    with Cons.prems obtain k' where k': "findIndex P xs = Some k'" "k = Suc k'"
      by auto
    from Cons.IH[OF k'(1)] False k'(2) show ?thesis
      by (auto simp: less_Suc_eq_0_disj)
  qed
qed

lemma findIndex_None: "findIndex P xs = None \<longleftrightarrow> (\<forall>x\<in>set xs. \<not> P x)"
  by (induction xs) auto

lemma findIndex_first:
  "k < length xs \<Longrightarrow> P (xs ! k) \<Longrightarrow> \<forall>j<k. \<not> P (xs ! j) \<Longrightarrow> findIndex P xs = Some k"
proof (induction xs arbitrary: k)
  case Nil
  then show ?case by simp
next
  case (Cons x xs)
  show ?case
  proof (cases k)
    case 0
    with Cons.prems show ?thesis by simp
  next
    case (Suc k')
    from Cons.prems(3) Suc have nx: "\<not> P x" by auto
    have "\<forall>j<k'. \<not> P (xs ! j)"
    proof (intro allI impI)
      fix j assume "j < k'"
      then have "Suc j < k" using Suc by simp
      with Cons.prems(3) have "\<not> P ((x # xs) ! Suc j)" by blast
      then show "\<not> P (xs ! j)" by simp
    qed
    with Cons.IH[of k'] Cons.prems(1,2) Suc have "findIndex P xs = Some k'" by simp
    with nx Suc show ?thesis by simp
  qed
qed

lemma window_arith:
  "dsub 19210 (1216125 / 64) = 13315 / 64"
  "dsub 18760 (1216125 / 64) = - 15485 / 64"
  "dsub 1020 1010 = 10"
  "dsub 1020 1000 = 20"
  "dsub 1020 900 = 120"
proof -
  show "dsub 19210 (1216125 / 64) = 13315 / 64"
    unfolding dsub_def by (subst fl_at[where e = 7]) (simp_all add: rne_def)
  show "dsub 18760 (1216125 / 64) = - 15485 / 64"
    unfolding dsub_def by (subst fl_at[where e = 7]) (simp_all add: rne_def)
  show "dsub 1020 1010 = 10"
    unfolding dsub_def by (subst fl_at[where e = 3]) (simp_all add: rne_def)
  show "dsub 1020 1000 = 20"
    unfolding dsub_def by (subst fl_at[where e = 4]) (simp_all add: rne_def)
  show "dsub 1020 900 = 120"
    unfolding dsub_def by (subst fl_at[where e = 6]) (simp_all add: rne_def)
qed

lemma window_late: "withinMergeWindow (1216125 / 64) 1020 (samplePeak 19210 (- 50) 1010)"
  unfolding withinMergeWindow_def samplePeak_def DetectedPeak.simps window_arith
  by (simp add: PEAK_MERGE_FREQ_HZ_def PEAK_MERGE_TIME_MS_def)

lemma window_early: "withinMergeWindow (1216125 / 64) 1020 (samplePeak 18760 (- 30) 1000)"
  unfolding withinMergeWindow_def samplePeak_def DetectedPeak.simps window_arith
  by (simp add: PEAK_MERGE_FREQ_HZ_def PEAK_MERGE_TIME_MS_def)

lemma window_stale: "\<not> withinMergeWindow (1216125 / 64) 1020 (samplePeak 18760 (- 30) 900)"
  unfolding withinMergeWindow_def samplePeak_def DetectedPeak.simps window_arith
  by (simp add: PEAK_MERGE_FREQ_HZ_def PEAK_MERGE_TIME_MS_def)

lemma quiet_flags:
  "isRecording (quietListener ps)" "analyserReady (quietListener ps)"
  "peaks (quietListener ps) = ps"
  by (simp_all add: quietListener_def)

lemma spike_scan_triple:
  "scanBand spikeFrame = (fst (scanBand spikeFrame), Some (- 40), 3243)"
  by (simp add: spikeFrame_scan)

text \<open>
  C4, amended. A frame analysed while recording classifies a detection \<open>new\<close>
  (the strongest band bin, with the signal-to-noise ratio taken against the noise floor
  as just updated). Let \<open>k\<close> be the first retained peak, in insertion order, within
  both merge windows of \<open>new\<close>, the two differences being computed in double
  precision. Then \<^verbatim>\<open>analyzeLoop\<close> leaves the number of retained peaks unchanged;
  it replaces peak \<open>k\<close> as a whole (frequency, amplitude, timestamp, type and SNR)
  by \<open>new\<close> when \<open>new\<close> is strictly stronger, and drops \<open>new\<close> otherwise;
  peak \<open>k\<close> then carries the higher of the two amplitudes, and every other retained
  peak, also one within the windows, is as it was.
\<close>

theorem analyzeLoop_merges_into_first_peak_in_window:
  assumes "isRecording st" and "analyserReady st"
    and "scanBand fr = (amplitudes, maxAmplitude, maxBin)"
    and "classifyPeak fr maxAmplitude maxBin
           (adaptNoiseFloor (medianAmplitude amplitudes) (noiseFloor st)) = Some new"
    and "k < length (peaks st)"
    and "withinMergeWindow (frequency new) (timestamp new) (peaks st ! k)"
    and "\<forall>j < k. \<not> withinMergeWindow (frequency new) (timestamp new) (peaks st ! j)"
  shows "length (peaks (analyzeLoop fr st)) = length (peaks st)
       \<and> peaks (analyzeLoop fr st)
           = (if amplitude new > amplitude (peaks st ! k)
              then (peaks st)[k := new] else peaks st)
       \<and> peaks (analyzeLoop fr st) ! k
           = (if amplitude new > amplitude (peaks st ! k) then new else peaks st ! k)
       \<and> amplitude (peaks (analyzeLoop fr st) ! k)
           = max (amplitude new) (amplitude (peaks st ! k))
       \<and> (\<forall>j < length (peaks st). j \<noteq> k \<longrightarrow>
             peaks (analyzeLoop fr st) ! j = peaks st ! j)"
proof -
  let ?P = "withinMergeWindow (frequency new) (timestamp new)"
  let ?ps = "peaks st"
  let ?ps' = "peaks (analyzeLoop fr st)"
  have k: "findIndex ?P ?ps = Some k"
    using findIndex_first[of k ?ps ?P] assms(5,6,7) by simp
  have rp: "?ps' = recordPeak new ?ps"
    unfolding peaks_analyzeLoop[OF assms(1,2,3)] assms(4) by simp
  have r: "?ps' = (if amplitude new > amplitude (?ps ! k) then ?ps[k := new] else ?ps)"
    unfolding rp by (simp add: recordPeak_def k)
  have len: "length ?ps' = length ?ps" by (simp add: r)
  have at: "?ps' ! k = (if amplitude new > amplitude (?ps ! k) then new else ?ps ! k)"
    using assms(5) by (simp add: r)
  have amp: "amplitude (?ps' ! k) = max (amplitude new) (amplitude (?ps ! k))"
    using assms(5) by (simp add: r)
  have others: "\<forall>j < length ?ps. j \<noteq> k \<longrightarrow> ?ps' ! j = ?ps ! j"
    by (simp add: r)
  from len r at amp others show ?thesis by (intro conjI)
qed

theorem analyzeLoop_merges_into_first_peak_in_window_witness:
  "isRecording (quietListener [samplePeak 18760 (- 30) 900, samplePeak 19210 (- 50) 1010])
   \<and> analyserReady (quietListener [samplePeak 18760 (- 30) 900, samplePeak 19210 (- 50) 1010])
   \<and> scanBand spikeFrame = (fst (scanBand spikeFrame), Some (- 40), 3243)
   \<and> classifyPeak spikeFrame (Some (- 40)) 3243
        (adaptNoiseFloor (medianAmplitude (fst (scanBand spikeFrame)))
           (noiseFloor (quietListener [samplePeak 18760 (- 30) 900, samplePeak 19210 (- 50) 1010])))
       = Some spikeDetection
   \<and> \<not> withinMergeWindow (frequency spikeDetection) (timestamp spikeDetection)
        (samplePeak 18760 (- 30) 900)
   \<and> withinMergeWindow (frequency spikeDetection) (timestamp spikeDetection)
        (samplePeak 19210 (- 50) 1010)
   \<and> peaks (analyzeLoop spikeFrame
        (quietListener [samplePeak 18760 (- 30) 900, samplePeak 19210 (- 50) 1010]))
       = [samplePeak 18760 (- 30) 900, spikeDetection]"
proof -
  let ?ps = "[samplePeak 18760 (- 30) 900, samplePeak 19210 (- 50) 1010]"
  let ?st = "quietListener ?ps"
  have w0: "\<not> withinMergeWindow (frequency spikeDetection) (timestamp spikeDetection)
             (samplePeak 18760 (- 30) 900)"
    using window_stale by (simp add: spikeDetection_def)
  have w1: "withinMergeWindow (frequency spikeDetection) (timestamp spikeDetection)
             (samplePeak 19210 (- 50) 1010)"
    using window_late by (simp add: spikeDetection_def)
  have k: "1 < length (peaks ?st)" by (simp add: quiet_flags)
  have wk: "withinMergeWindow (frequency spikeDetection) (timestamp spikeDetection)
              (peaks ?st ! 1)"
    using w1 by (simp add: quiet_flags)
  have first: "\<forall>j < 1. \<not> withinMergeWindow (frequency spikeDetection)
                 (timestamp spikeDetection) (peaks ?st ! j)"
    using w0 by (simp add: quiet_flags)
  have a: "amplitude spikeDetection > amplitude (peaks ?st ! 1)"
    by (simp add: quiet_flags samplePeak_def spikeDetection_def)
  from analyzeLoop_merges_into_first_peak_in_window
         [OF quiet_flags(1) quiet_flags(2) spike_scan_triple spike_classified k wk first]
  have "peaks (analyzeLoop spikeFrame ?st)
          = (if amplitude spikeDetection > amplitude (peaks ?st ! 1)
             then (peaks ?st)[1 := spikeDetection] else peaks ?st)"
    by (rule conjunct1[OF conjunct2])
  then have "peaks (analyzeLoop spikeFrame ?st) = [samplePeak 18760 (- 30) 900, spikeDetection]"
    unfolding if_P[OF a] by (simp add: quiet_flags)
  with quiet_flags(1)[of ?ps] quiet_flags(2)[of ?ps] spike_scan_triple
       spike_classified[of ?ps] w0 w1
  show ?thesis by (intro conjI)
qed

text \<open>
  Against C4 as worded. Two peaks are retained, both within the merge windows of
  the detection classified on the frame (19001.953125 Hz, -40 dB, at 1020 ms). The
  detection is stronger than the second retained peak (-50 dB) but weaker than the
  first (-30 dB), the only one it is compared with: it is dropped, and that second
  peak, within both windows of it, keeps the lower amplitude of the two.
\<close>

theorem merge_claim_counterexample:
  "classifyPeak spikeFrame (fst (snd (scanBand spikeFrame))) (snd (snd (scanBand spikeFrame)))
      (adaptNoiseFloor (medianAmplitude (fst (scanBand spikeFrame)))
         (noiseFloor (quietListener [samplePeak 18760 (- 30) 1000, samplePeak 19210 (- 50) 1010])))
     = Some spikeDetection
   \<and> withinMergeWindow (frequency spikeDetection) (timestamp spikeDetection)
        (samplePeak 19210 (- 50) 1010)
   \<and> amplitude (samplePeak 19210 (- 50) 1010) < amplitude spikeDetection
   \<and> peaks (analyzeLoop spikeFrame
        (quietListener [samplePeak 18760 (- 30) 1000, samplePeak 19210 (- 50) 1010]))
       = [samplePeak 18760 (- 30) 1000, samplePeak 19210 (- 50) 1010]"
proof -
  let ?ps = "[samplePeak 18760 (- 30) 1000, samplePeak 19210 (- 50) 1010]"
  let ?st = "quietListener ?ps"
  have d: "classifyPeak spikeFrame (fst (snd (scanBand spikeFrame))) (snd (snd (scanBand spikeFrame)))
      (adaptNoiseFloor (medianAmplitude (fst (scanBand spikeFrame))) (noiseFloor ?st))
     = Some spikeDetection"
    using spike_classified[of ?ps] by (simp add: spike_scan_triple[THEN arg_cong, of "\<lambda>x. fst (snd x)"] spike_scan_triple[THEN arg_cong, of "\<lambda>x. snd (snd x)"])
  have w: "withinMergeWindow (frequency spikeDetection) (timestamp spikeDetection)
             (samplePeak 19210 (- 50) 1010)"
    using window_late by (simp add: spikeDetection_def)
  have w0: "withinMergeWindow (frequency spikeDetection) (timestamp spikeDetection)
             (samplePeak 18760 (- 30) 1000)"
    using window_early by (simp add: spikeDetection_def)
  have a: "amplitude (samplePeak 19210 (- 50) 1010) < amplitude spikeDetection"
    by (simp add: samplePeak_def spikeDetection_def)
  have a0: "\<not> amplitude spikeDetection > amplitude (samplePeak 18760 (- 30) 1000)"
    by (simp add: samplePeak_def spikeDetection_def)
  have "peaks (analyzeLoop spikeFrame ?st)
          = (case Some spikeDetection of None \<Rightarrow> peaks ?st
             | Some new \<Rightarrow> recordPeak new (peaks ?st))"
    unfolding peaks_analyzeLoop[OF quiet_flags(1) quiet_flags(2) spike_scan_triple]
      spike_classified ..
  also have "\<dots> = recordPeak spikeDetection ?ps" by (simp add: quiet_flags)
  also have "\<dots> = ?ps"
    unfolding recordPeak_def using w0 a0 by simp
  finally have "peaks (analyzeLoop spikeFrame ?st) = ?ps" .
  with d w a show ?thesis by (intro conjI)
qed


subsection \<open>Final peaks\<close>

lemma finalPeaks_length: "length (finalPeaks ps) \<le> MAX_PEAKS"
  by (simp add: finalPeaks_def)

lemma finalPeaks_sorted: "sorted (map timestamp (finalPeaks ps))"
  by (simp add: finalPeaks_def)

lemma finalPeaks_small: "length ps \<le> MAX_PEAKS \<Longrightarrow> mset (finalPeaks ps) = mset ps"
  by (simp add: finalPeaks_def)

lemma finalPeaks_big:
  assumes "length ps > MAX_PEAKS"
  shows "length (finalPeaks ps) = MAX_PEAKS"
    and "mset (finalPeaks ps) \<subseteq># mset ps"
    and "\<forall>p \<in># mset (finalPeaks ps). \<forall>q \<in># mset ps - mset (finalPeaks ps).
           amplitude q \<le> amplitude p"
proof -
  define s where "s = sort_key (\<lambda>p. - amplitude p) ps"
  have ms: "mset s = mset ps" and srt: "sorted (map (\<lambda>p. - amplitude p) s)"
    by (simp_all add: s_def)
  have fp: "mset (finalPeaks ps) = mset (take MAX_PEAKS s)"
    using assms by (simp add: finalPeaks_def s_def)
  have split: "mset ps = mset (take MAX_PEAKS s) + mset (drop MAX_PEAKS s)"
    by (metis ms append_take_drop_id mset_append)
  show "length (finalPeaks ps) = MAX_PEAKS"
    using assms by (simp add: finalPeaks_def)
  show "mset (finalPeaks ps) \<subseteq># mset ps"
    by (simp add: fp split)
  have rest: "mset ps - mset (finalPeaks ps) = mset (drop MAX_PEAKS s)"
    by (simp add: fp split)
  have "sorted (map (\<lambda>p. - amplitude p) (take MAX_PEAKS s)
                @ map (\<lambda>p. - amplitude p) (drop MAX_PEAKS s))"
    using srt by (metis append_take_drop_id map_append)
  then have "\<forall>p \<in> set (take MAX_PEAKS s). \<forall>q \<in> set (drop MAX_PEAKS s).
               amplitude q \<le> amplitude p"
    by (auto simp: sorted_append)
  then show "\<forall>p \<in># mset (finalPeaks ps). \<forall>q \<in># mset ps - mset (finalPeaks ps).
               amplitude q \<le> amplitude p"
    unfolding rest unfolding fp by simp
qed

text \<open>
  C2. \<open>stopAndAnalyze\<close> returns at most \<open>MAX_PEAKS = 20\<close> peaks. When more were
  retained, it returns exactly \<open>MAX_PEAKS\<close> of them, and every returned peak is at
  least as strong as every peak left out; otherwise it returns all of them. In
  every case the returned list is in non-decreasing order of timestamp.
\<close>

theorem stopAndAnalyze_caps_strongest_in_time_order:
  "length (fst (stopAndAnalyze st)) \<le> MAX_PEAKS
   \<and> MAX_PEAKS = 20
   \<and> (length (peaks st) > MAX_PEAKS \<longrightarrow>
        length (fst (stopAndAnalyze st)) = MAX_PEAKS
        \<and> mset (fst (stopAndAnalyze st)) \<subseteq># mset (peaks st)
        \<and> (\<forall>p \<in># mset (fst (stopAndAnalyze st)).
             \<forall>q \<in># mset (peaks st) - mset (fst (stopAndAnalyze st)).
               amplitude q \<le> amplitude p))
   \<and> (length (peaks st) \<le> MAX_PEAKS \<longrightarrow>
        mset (fst (stopAndAnalyze st)) = mset (peaks st))
   \<and> sorted (map timestamp (fst (stopAndAnalyze st)))
   \<and> peaks (snd (stopAndAnalyze st)) = peaks st"
  using finalPeaks_big[of "peaks st"] finalPeaks_small[of "peaks st"]
        finalPeaks_length[of "peaks st"] finalPeaks_sorted[of "peaks st"]
  by (simp add: stopAndAnalyze_def MAX_PEAKS_def)

theorem stopAndAnalyze_caps_strongest_in_time_order_witness:
  "length (peaks crowdedListener) > MAX_PEAKS
   \<and> length (fst (stopAndAnalyze crowdedListener)) = 20
   \<and> sorted (map timestamp (fst (stopAndAnalyze crowdedListener)))
   \<and> length (peaks (busyListener\<lparr> peaks := [samplePeak 19000 (- 40) 5, samplePeak 17500 (- 45) 3] \<rparr>))
       \<le> MAX_PEAKS
   \<and> fst (stopAndAnalyze
        (busyListener\<lparr> peaks := [samplePeak 19000 (- 40) 5, samplePeak 17500 (- 45) 3] \<rparr>))
       = [samplePeak 17500 (- 45) 3, samplePeak 19000 (- 40) 5]"
proof -
  have big: "length (peaks crowdedListener) > MAX_PEAKS"
    by (simp add: crowdedListener_def MAX_PEAKS_def)
  from stopAndAnalyze_caps_strongest_in_time_order [of crowdedListener] big
  have b1: "length (fst (stopAndAnalyze crowdedListener)) = 20"
    and b2: "sorted (map timestamp (fst (stopAndAnalyze crowdedListener)))"
    by presburger+
  have small: "length (peaks (busyListener\<lparr> peaks :=
                  [samplePeak 19000 (- 40) 5, samplePeak 17500 (- 45) 3] \<rparr>)) \<le> MAX_PEAKS"
    by (simp add: MAX_PEAKS_def)
  have e: "fst (stopAndAnalyze
        (busyListener\<lparr> peaks := [samplePeak 19000 (- 40) 5, samplePeak 17500 (- 45) 3] \<rparr>))
       = [samplePeak 17500 (- 45) 3, samplePeak 19000 (- 40) 5]"
    by (simp add: stopAndAnalyze_def finalPeaks_def MAX_PEAKS_def samplePeak_def)
  from big b1 b2 small e show ?thesis by blast
qed

section \<open>Properties of the queue processing\<close>

subsection \<open>Config keys and batches\<close>

lemma split_at_separator:
  "c \<notin> set a \<Longrightarrow> c \<notin> set a' \<Longrightarrow> a @ c # r = a' @ c # r' \<Longrightarrow> a = a' \<and> r = r'"
proof (induction a arbitrary: a')
  case Nil
  then show ?case by (cases a') auto
next
  case (Cons x a)
  then show ?case by (cases a') auto
qed

lemma booleanToString_no_sep: "CHR ''_'' \<notin> set (booleanToString b)"
  by (auto simp: booleanToString_def split: option.splits bool.splits)

lemma booleanToString_inj: "booleanToString b = booleanToString b' \<Longrightarrow> b = b'"
  by (auto simp: booleanToString_def split: option.splits bool.splits)

lemma optionalNumberToString_inj:
  "numberFormat ns \<Longrightarrow> optionalNumberToString ns x = optionalNumberToString ns y \<Longrightarrow> x = y"
  by (auto simp: optionalNumberToString_def numberFormat_def inj_def split: option.splits)

lemma getConfigKey_inj:
  assumes nf: "numberFormat ns" and eq: "getConfigKey ns c = getConfigKey ns c'"
  shows "c = c'"
proof -
  from nf have inj: "\<And>x y. ns x = ns y \<Longrightarrow> x = y"
    and nosep: "\<And>n. CHR ''_'' \<notin> set (ns n)"
    by (auto simp: numberFormat_def inj_def)
  note s = split_at_separator[of "CHR ''_''"]
  from eq have e1: "ns (volume c) @ CHR ''_'' # (ns (freqLow c) @ ''_'' @ ns (freqHigh c) @ ''_'' @ ns (pulseDuration c) @ ''_''
     @ ns (pulseGap c) @ ''_'' @ booleanToString (useOutputFilter c) @ ''_''
     @ optionalNumberToString ns (filterCutoff c))
     = ns (volume c') @ CHR ''_'' # (ns (freqLow c') @ ''_'' @ ns (freqHigh c') @ ''_'' @ ns (pulseDuration c') @ ''_''
     @ ns (pulseGap c') @ ''_'' @ booleanToString (useOutputFilter c') @ ''_''
     @ optionalNumberToString ns (filterCutoff c'))"
    by (simp add: getConfigKey_def)
  from s[OF nosep nosep e1] have v: "ns (volume c) = ns (volume c')"
    and e2: "ns (freqLow c) @ CHR ''_'' # (ns (freqHigh c) @ ''_'' @ ns (pulseDuration c) @ ''_''
     @ ns (pulseGap c) @ ''_'' @ booleanToString (useOutputFilter c) @ ''_''
     @ optionalNumberToString ns (filterCutoff c))
     = ns (freqLow c') @ CHR ''_'' # (ns (freqHigh c') @ ''_'' @ ns (pulseDuration c') @ ''_''
     @ ns (pulseGap c') @ ''_'' @ booleanToString (useOutputFilter c') @ ''_''
     @ optionalNumberToString ns (filterCutoff c'))"
    by simp_all
  from s[OF nosep nosep e2] have fl: "ns (freqLow c) = ns (freqLow c')"
    and e3: "ns (freqHigh c) @ CHR ''_'' # (ns (pulseDuration c) @ ''_''
     @ ns (pulseGap c) @ ''_'' @ booleanToString (useOutputFilter c) @ ''_''
     @ optionalNumberToString ns (filterCutoff c))
     = ns (freqHigh c') @ CHR ''_'' # (ns (pulseDuration c') @ ''_''
     @ ns (pulseGap c') @ ''_'' @ booleanToString (useOutputFilter c') @ ''_''
     @ optionalNumberToString ns (filterCutoff c'))"
    by simp_all
  from s[OF nosep nosep e3] have fh: "ns (freqHigh c) = ns (freqHigh c')"
    and e4: "ns (pulseDuration c) @ CHR ''_'' # (ns (pulseGap c) @ ''_'' @ booleanToString (useOutputFilter c) @ ''_''
     @ optionalNumberToString ns (filterCutoff c))
     = ns (pulseDuration c') @ CHR ''_'' # (ns (pulseGap c') @ ''_'' @ booleanToString (useOutputFilter c') @ ''_''
     @ optionalNumberToString ns (filterCutoff c'))"
    by simp_all
  from s[OF nosep nosep e4] have pd: "ns (pulseDuration c) = ns (pulseDuration c')"
    and e5: "ns (pulseGap c) @ CHR ''_'' # (booleanToString (useOutputFilter c) @ ''_''
     @ optionalNumberToString ns (filterCutoff c))
     = ns (pulseGap c') @ CHR ''_'' # (booleanToString (useOutputFilter c') @ ''_''
     @ optionalNumberToString ns (filterCutoff c'))"
    by simp_all
  from s[OF nosep nosep e5] have pg: "ns (pulseGap c) = ns (pulseGap c')"
    and e6: "booleanToString (useOutputFilter c) @ CHR ''_'' # optionalNumberToString ns (filterCutoff c)
     = booleanToString (useOutputFilter c') @ CHR ''_'' # optionalNumberToString ns (filterCutoff c')"
    by simp_all
  from s[OF booleanToString_no_sep booleanToString_no_sep e6]
  have uf: "booleanToString (useOutputFilter c) = booleanToString (useOutputFilter c')"
    and fc: "optionalNumberToString ns (filterCutoff c) = optionalNumberToString ns (filterCutoff c')"
    by simp_all
  have "volume c = volume c'" "freqLow c = freqLow c'" "freqHigh c = freqHigh c'"
    "pulseDuration c = pulseDuration c'" "pulseGap c = pulseGap c'"
    "useOutputFilter c = useOutputFilter c'" "filterCutoff c = filterCutoff c'"
    using v fl fh pd pg uf fc inj booleanToString_inj optionalNumberToString_inj[OF nf]
    by blast+
  then show ?thesis by (intro EmitterConfig.equality) simp_all
qed


lemma grouped_step:
  assumes "grouped ns groups students"
  shows "grouped ns (group_step ns groups x) (students @ [x])"
proof -
  define key where "key = getConfigKey ns (config x)"
  define G where "G = (if key \<notin> fst ` set groups then groups @ [(key, [])] else groups)"
  define upd where "upd = (\<lambda>(k, g). if k = key then (k, g @ [x]) else (k :: string, g))"
  have step: "group_step ns groups x = map upd G"
    by (simp add: group_step_def Let_def key_def G_def upd_def)
  from assms have d: "distinct (map fst groups)"
    and m: "\<And>k g s. (k, g) \<in> set groups \<Longrightarrow> s \<in> set g \<Longrightarrow> getConfigKey ns (config s) = k"
    and c: "\<And>s. s \<in> set students \<Longrightarrow>
              \<exists>g. (getConfigKey ns (config s), g) \<in> set groups \<and> s \<in> set g"
    by (auto simp: grouped_def)
  have fst_upd: "map fst (map upd G) = map fst G"
    by (auto simp: upd_def split: prod.splits)
  have dG: "distinct (map fst G)"
    using d by (auto simp: G_def)
  have mG: "getConfigKey ns (config s) = k" if "(k, g) \<in> set G" "s \<in> set g" for k g s
    using that m by (auto simp: G_def split: if_splits)
  have keyG: "\<exists>g. (key, g) \<in> set G"
    by (auto simp: G_def image_iff)
  have in_upd: "(k, if k = key then g @ [x] else g) \<in> set (map upd G)" if "(k, g) \<in> set G" for k g
  proof -
    have "upd (k, g) = (k, if k = key then g @ [x] else g)" by (simp add: upd_def)
    with that show ?thesis by (metis imageI set_map)
  qed
  have from_upd: "\<exists>g. (k, g) \<in> set G \<and> g' = (if k = key then g @ [x] else g)"
    if "(k, g') \<in> set (map upd G)" for k g'
  proof -
    from that obtain kg where kg: "kg \<in> set G" "upd kg = (k, g')" by auto
    obtain k0 g0 where kg0: "kg = (k0, g0)" by (cases kg)
    with kg(2) have "k0 = k" "g' = (if k = key then g0 @ [x] else g0)"
      by (auto simp: upd_def split: if_splits)
    with kg(1) kg0 show ?thesis by blast
  qed
  have 1: "distinct (map fst (map upd G))"
    using dG by (simp only: fst_upd)
  have 2: "getConfigKey ns (config s) = k" if "(k, g') \<in> set (map upd G)" "s \<in> set g'" for k g' s
  proof -
    from from_upd[OF that(1)] obtain g where g: "(k, g) \<in> set G"
      "g' = (if k = key then g @ [x] else g)" by blast
    show ?thesis
    proof (cases "s \<in> set g")
      case True
      with g(1) show ?thesis by (rule mG)
    next
      case False
      with that(2) g(2) have "k = key" "s = x" by (auto split: if_splits)
      then show ?thesis by (simp add: key_def)
    qed
  qed
  have 3: "\<exists>g. (getConfigKey ns (config s), g) \<in> set (map upd G) \<and> s \<in> set g"
    if "s \<in> set (students @ [x])" for s
  proof (cases "s \<in> set students")
    case True
    from c[OF True] obtain g where "(getConfigKey ns (config s), g) \<in> set groups" "s \<in> set g"
      by blast
    then have "(getConfigKey ns (config s), g) \<in> set G" by (auto simp: G_def)
    from in_upd[OF this] \<open>s \<in> set g\<close> show ?thesis
      by (intro exI[of _ "if getConfigKey ns (config s) = key then g @ [x] else g"]) simp
  next
    case False
    with that have sx: "s = x" by simp
    from keyG obtain g where "(key, g) \<in> set G" by blast
    from in_upd[OF this] show ?thesis
      by (intro exI[of _ "g @ [x]"]) (simp add: sx key_def)
  qed
  show ?thesis
    unfolding grouped_def step
  proof (intro conjI)
    show "distinct (map fst (map upd G))" by (rule 1)
    show "\<forall>k g. (k, g) \<in> set (map upd G) \<longrightarrow> (\<forall>s\<in>set g. getConfigKey ns (config s) = k)"
      using 2 by blast
    show "\<forall>s\<in>set (students @ [x]). \<exists>g. (getConfigKey ns (config s), g) \<in> set (map upd G) \<and> s \<in> set g"
      using 3 by blast
  qed
qed

lemma grouped_configGroups: "grouped ns (configGroups ns students) students"
proof (induction students rule: rev_induct)
  case Nil
  show ?case by (simp add: grouped_def configGroups_def)
next
  case (snoc x xs)
  from grouped_step[OF snoc.IH, of x] show ?case
    by (simp add: configGroups_def)
qed

lemma grouped_same:
  assumes g: "grouped ns groups students" and a: "a \<in> set students" and b: "b \<in> set students"
    and k: "getConfigKey ns (config a) = getConfigKey ns (config b)"
  shows "sameBatch groups a b"
proof -
  from g a obtain ga where ga: "(getConfigKey ns (config a), ga) \<in> set groups" "a \<in> set ga"
    unfolding grouped_def by blast
  from g b obtain gb where gb: "(getConfigKey ns (config b), gb) \<in> set groups" "b \<in> set gb"
    unfolding grouped_def by blast
  from g have "distinct (map fst groups)" by (simp add: grouped_def)
  with ga(1) gb(1) k have "ga = gb"
    by (metis eq_key_imp_eq_value)
  with ga gb show ?thesis
    unfolding sameBatch_def by blast
qed

lemma grouped_different:
  assumes g: "grouped ns groups students"
    and k: "getConfigKey ns (config a) \<noteq> getConfigKey ns (config b)"
  shows "\<not> sameBatch groups a b"
proof
  assume "sameBatch groups a b"
  then obtain k' g' where "(k', g') \<in> set groups" "a \<in> set g'" "b \<in> set g'"
    unfolding sameBatch_def by blast
  with g have "getConfigKey ns (config a) = k'" "getConfigKey ns (config b) = k'"
    unfolding grouped_def by blast+
  with k show False by simp
qed

lemma digitValue_digit: "d < 10 \<Longrightarrow> digitValue (digit d) = d"
proof -
  assume "d < 10"
  then have "d \<in> {0,1,2,3,4,5,6,7,8,9}" by auto
  then show ?thesis by (auto simp: digitValue_def digit_def)
qed

lemma readDecimal_decimal: "readDecimal (decimal n) = n"
proof (induction n rule: decimal.induct)
  case (1 n)
  show ?case
  proof (cases "n < 10")
    case True
    then show ?thesis
      by (subst decimal.simps) (simp add: readDecimal_def digitValue_digit)
  next
    case False
    with "1.IH" have "readDecimal (decimal (n div 10)) = n div 10" by simp
    with False show ?thesis
      by (subst decimal.simps) (simp add: readDecimal_def digitValue_digit)
  qed
qed

lemma decimal_inj: "inj decimal"
  by (rule inj_on_inverseI[where g = readDecimal]) (rule readDecimal_decimal)

lemma digit_range: "d < 10 \<Longrightarrow> digit d \<in> set ''0123456789''"
proof -
  assume "d < 10"
  then have "d \<in> {0,1,2,3,4,5,6,7,8,9}" by auto
  then show ?thesis by (auto simp: digit_def)
qed

lemma decimal_digits: "set (decimal n) \<subseteq> set ''0123456789''"
proof (induction n rule: decimal.induct)
  case (1 n)
  show ?case
  proof (cases "n < 10")
    case True
    then have "decimal n = [digit n]" by (subst decimal.simps) simp
    with digit_range[OF True] show ?thesis by simp
  next
    case False
    then have d: "decimal n = decimal (n div 10) @ [digit (n mod 10)]"
      by (subst decimal.simps) simp
    from False "1.IH" have "set (decimal (n div 10)) \<subseteq> set ''0123456789''" by simp
    moreover have "digit (n mod 10) \<in> set ''0123456789''" by (rule digit_range) simp
    ultimately show ?thesis unfolding d by simp
  qed
qed

lemma numberFormat_decimal: "numberFormat decimal"
  unfolding numberFormat_def
proof (intro conjI allI)
  show "inj decimal" by (rule decimal_inj)
  show "CHR ''_'' \<notin> set (decimal n)" for n
    using decimal_digits[of n] by auto
  show "decimal n \<noteq> ''undefined''" for n
  proof
    assume "decimal n = ''undefined''"
    then have "CHR ''u'' \<in> set (decimal n)" by simp
    with decimal_digits[of n] show False by auto
  qed
qed

text \<open>
  C6. Provided numbers print injectively and without underscores, two ready
  participants of one \<open>processQueue\<close> round are placed in the same batch when their
  configs are identical, and in different batches when their configs differ (in
  any field); being in the same batch is the same as having equal config keys,
  and each of the two is in some batch.
\<close>

theorem batches_by_exact_config:
  assumes "numberFormat numberToString"
    and "a \<in> set queue" and "status a = Ready"
    and "b \<in> set queue" and "status b = Ready"
  shows "(config a = config b \<longrightarrow>
            sameBatch (processQueue numberToString False (readyStudents queue)) a b)
       \<and> (config a \<noteq> config b \<longrightarrow>
            \<not> sameBatch (processQueue numberToString False (readyStudents queue)) a b)
       \<and> (sameBatch (processQueue numberToString False (readyStudents queue)) a b
            \<longleftrightarrow> getConfigKey numberToString (config a) = getConfigKey numberToString (config b))
       \<and> sameBatch (processQueue numberToString False (readyStudents queue)) a a
       \<and> sameBatch (processQueue numberToString False (readyStudents queue)) b b"
proof -
  let ?G = "configGroups numberToString (readyStudents queue)"
  have g: "grouped numberToString ?G (readyStudents queue)"
    by (rule grouped_configGroups)
  from assms(2,3) have a: "a \<in> set (readyStudents queue)"
    by (simp add: readyStudents_def)
  from assms(4,5) have b: "b \<in> set (readyStudents queue)"
    by (simp add: readyStudents_def)
  from a have "readyStudents queue \<noteq> []" by auto
  then have pq: "processQueue numberToString False (readyStudents queue) = ?G"
    by (simp add: processQueue_def)
  have keq: "getConfigKey numberToString (config a) = getConfigKey numberToString (config b)
               \<longleftrightarrow> config a = config b"
    using getConfigKey_inj[OF assms(1), of "config a" "config b"] by auto
  have s: "sameBatch ?G a b
             \<longleftrightarrow> getConfigKey numberToString (config a) = getConfigKey numberToString (config b)"
    using grouped_same[OF g a b] grouped_different[OF g, of a b] by auto
  have aa: "sameBatch ?G a a" and bb: "sameBatch ?G b b"
    using grouped_same[OF g a a] grouped_same[OF g b b] by simp_all
  show ?thesis
    unfolding pq using s keq aa bb by simp
qed

theorem batches_by_exact_config_witness:
  "numberFormat decimal
   \<and> sampleEntry ''a'' Ready loudConfig \<in> set sampleQueue
   \<and> sampleEntry ''b'' Ready loudConfig \<in> set sampleQueue
   \<and> sampleEntry ''c'' Ready longGapConfig \<in> set sampleQueue
   \<and> sameBatch (processQueue decimal False (readyStudents sampleQueue))
        (sampleEntry ''a'' Ready loudConfig) (sampleEntry ''b'' Ready loudConfig)
   \<and> \<not> sameBatch (processQueue decimal False (readyStudents sampleQueue))
        (sampleEntry ''a'' Ready loudConfig) (sampleEntry ''c'' Ready longGapConfig)
   \<and> getConfigKey decimal loudConfig = ''1_17500_19000_100_80_true_15000''"
proof -
  have ia: "sampleEntry ''a'' Ready loudConfig \<in> set sampleQueue"
    and ib: "sampleEntry ''b'' Ready loudConfig \<in> set sampleQueue"
    and ic: "sampleEntry ''c'' Ready longGapConfig \<in> set sampleQueue"
    by (simp_all add: sampleQueue_def)
  have st: "status (sampleEntry sid Ready cfg) = Ready" for sid cfg
    by (simp add: sampleEntry_def)
  have cf: "config (sampleEntry sid Ready cfg) = cfg" for sid cfg
    by (simp add: sampleEntry_def)
  have ne: "loudConfig \<noteq> longGapConfig"
    by (simp add: loudConfig_def longGapConfig_def)
  have key: "getConfigKey decimal loudConfig = ''1_17500_19000_100_80_true_15000''"
    by (simp add: getConfigKey_def loudConfig_def booleanToString_def
          optionalNumberToString_def decimal.simps digit_def)
  from batches_by_exact_config [OF numberFormat_decimal ia st ib st]
  have same: "sameBatch (processQueue decimal False (readyStudents sampleQueue))
        (sampleEntry ''a'' Ready loudConfig) (sampleEntry ''b'' Ready loudConfig)"
    by (simp add: cf)
  from batches_by_exact_config [OF numberFormat_decimal ia st ic st] ne
  have diff: "\<not> sameBatch (processQueue decimal False (readyStudents sampleQueue))
        (sampleEntry ''a'' Ready loudConfig) (sampleEntry ''c'' Ready longGapConfig)"
    by (simp add: cf)
  from numberFormat_decimal ia ib ic same diff key show ?thesis by blast
qed

subsection \<open>Handshake\<close>

lemma pollTime_lower: "startTime + 50 * int k \<le> pollTime env startTime k"
  by (induction k) auto

lemma pollTime_exact:
  "(\<forall>j. lateness env j = 0) \<Longrightarrow> pollTime env startTime k = startTime + 50 * int k"
  by (induction k) auto

lemma handshake_loop_spec:
  assumes "t = pollTime env startTime k" and "polledBefore env ids n startTime k"
    and "handshake_loop env ids n startTime t k = (ready, t', k')"
  shows "t' = pollTime env startTime k' \<and> k \<le> k' \<and> polledBefore env ids n startTime k'
         \<and> (ready \<longrightarrow> t' - startTime < HANDSHAKE_TIMEOUT \<and> readyCount (queueAt env t') ids = n)
         \<and> (\<not> ready \<longrightarrow> HANDSHAKE_TIMEOUT \<le> t' - startTime)"
  using assms
proof (induction env ids n startTime t k rule: handshake_loop.induct)
  case (1 env ids n startTime t k)
  show ?case
  proof (cases "t - startTime < HANDSHAKE_TIMEOUT")
    case False
    with "1.prems"(3) have "ready = False" "t' = t" "k' = k"
      by (simp_all add: handshake_loop.simps[of env ids n startTime t k])
    with False "1.prems"(1,2) show ?thesis by simp
  next
    case True
    show ?thesis
    proof (cases "readyCount (queueAt env t) ids = n")
      case rc: True
      with True "1.prems"(3) have "ready = True" "t' = t" "k' = k"
        by (simp_all add: handshake_loop.simps[of env ids n startTime t k])
      with True rc "1.prems"(1,2) show ?thesis by simp
    next
      case rc: False
      have next_t: "t + 50 + int (lateness env k) = pollTime env startTime (k + 1)"
        using "1.prems"(1) by simp
      have pb: "polledBefore env ids n startTime (k + 1)"
        using "1.prems"(1,2) True rc by (auto simp: polledBefore_def less_Suc_eq)
      have run: "handshake_loop env ids n startTime (t + 50 + int (lateness env k)) (k + 1)
                   = (ready, t', k')"
        using "1.prems"(3) True rc by (simp add: handshake_loop.simps[of env ids n startTime t k])
      from "1.IH"[OF True rc next_t pb run] show ?thesis by auto
    qed
  qed
qed

lemma polledBefore_bound:
  assumes "polledBefore env ids n startTime k"
  shows "k \<le> 60"
proof (rule ccontr)
  assume "\<not> k \<le> 60"
  then have "60 < k" by simp
  with assms have "pollTime env startTime 60 - startTime < HANDSHAKE_TIMEOUT"
    by (simp add: polledBefore_def)
  moreover have "startTime + 50 * int 60 \<le> pollTime env startTime 60" by (rule pollTime_lower)
  ultimately show False by (simp add: HANDSHAKE_TIMEOUT_def)
qed

lemma processBatch_empty: "processBatch env [] startTime = EmptyBatchTypeError"
  by (simp add: processBatch_def)

lemma processBatch_write_failed:
  "students \<noteq> [] \<Longrightarrow> \<not> emittingWritten env \<Longrightarrow> processBatch env students startTime = MarkedFailed"
  by (simp add: processBatch_def)

lemma processBatch_unfold:
  assumes "students \<noteq> []" and "emittingWritten env"
    and "handshake_loop env (map entry_id students) (length students) startTime startTime 0
           = (ready, t, k)"
  shows "processBatch env students startTime =
          Emission \<lparr> allReady = ready, endedAt = t, sleeps = k,
            readyAtEnd = readyCount (queueAt env t) (map entry_id students),
            emitInvokedAt = (if emitterPresent env
                             then Some (t + 100 + int (lateness env k)) else None) \<rparr>"
  using assms by (simp add: processBatch_def Let_def)

lemma sampleBatch_ne: "sampleBatch \<noteq> []"
  by (simp add: sampleBatch_def)

lemma prompt_run:
  "handshake_loop promptEnv (map entry_id sampleBatch) (length sampleBatch) 1000 1000 0
     = (True, 1150, 3)"
  by (simp add: handshake_loop.simps promptEnv_def sampleBatch_def sampleEntry_def
        readyCount_def HANDSHAKE_TIMEOUT_def)

lemma straggler_run:
  "handshake_loop stragglerEnv (map entry_id sampleBatch) (length sampleBatch) 1000 1000 0
     = (False, 4000, 60)"
  by (simp add: handshake_loop.simps stragglerEnv_def sampleBatch_def sampleEntry_def
        readyCount_def HANDSHAKE_TIMEOUT_def)

lemma late_run:
  "handshake_loop lateEnv (map entry_id sampleBatch) (length sampleBatch) 1000 1000 0
     = (False, 4021, 53)"
  by (simp add: handshake_loop.simps lateEnv_def sampleBatch_def sampleEntry_def
        readyCount_def HANDSHAKE_TIMEOUT_def)

lemma env_flags:
  "emittingWritten promptEnv" "emitterPresent promptEnv" "lateness promptEnv j = 0"
  "emittingWritten stragglerEnv" "emitterPresent stragglerEnv" "lateness stragglerEnv j = 0"
  "emittingWritten lateEnv" "emitterPresent lateEnv" "lateness lateEnv j = 7"
  by (simp_all add: promptEnv_def stragglerEnv_def lateEnv_def)

lemma ready_counts:
  "readyCount (queueAt promptEnv 1150) (map entry_id sampleBatch) = 2"
  "readyCount (queueAt stragglerEnv 4000) (map entry_id sampleBatch) = 1"
  "readyCount (queueAt lateEnv 4021) (map entry_id sampleBatch) = 1"
  by (simp_all add: readyCount_def promptEnv_def stragglerEnv_def lateEnv_def
        sampleBatch_def sampleEntry_def)

lemma prompt_batch:
  "processBatch promptEnv sampleBatch 1000
     = Emission \<lparr> allReady = True, endedAt = 1150, sleeps = 3, readyAtEnd = 2,
                  emitInvokedAt = Some 1250 \<rparr>"
  unfolding processBatch_unfold[OF sampleBatch_ne env_flags(1) prompt_run] ready_counts
  by (simp add: env_flags)

lemma straggler_batch:
  "processBatch stragglerEnv sampleBatch 1000
     = Emission \<lparr> allReady = False, endedAt = 4000, sleeps = 60, readyAtEnd = 1,
                  emitInvokedAt = Some 4100 \<rparr>"
  unfolding processBatch_unfold[OF sampleBatch_ne env_flags(4) straggler_run] ready_counts
  by (simp add: env_flags)

lemma late_batch:
  "processBatch lateEnv sampleBatch 1000
     = Emission \<lparr> allReady = False, endedAt = 4021, sleeps = 53, readyAtEnd = 1,
                  emitInvokedAt = Some 4128 \<rparr>"
  unfolding processBatch_unfold[OF sampleBatch_ne env_flags(7) late_run] ready_counts
  by (simp add: env_flags)

text \<open>
  C7, amended. For a batch of at least one student whose status writes succeeded,
  \<^verbatim>\<open>processBatch\<close> reaches the call of the emitter. Its handshake loop checks the
  queue at times that are 50 ms apart (plus the lateness of each timer), at most 60
  times after the first check; it ends at the first check at which every student of
  the batch is listening, if that comes before 3000 ms have elapsed, and otherwise
  at the first check at or after 3000 ms, with however many students are listening
  then. The loop ends less than one timer interval after the timeout, and no later
  than the timeout when the timers fire on time. In either case the emitter (when
  present) is invoked one further timer of 100 ms later, whether or not all
  students are ready: less than 3150 ms plus the lateness of two timers after the
  start of the handshake, and at most 3100 ms after it when the timers fire on time.
\<close>

theorem processBatch_handshake_wait_is_bounded:
  fixes env :: "'n BatchEnv" and students :: "'n QueueEntry list" and startTime :: int
  assumes "students \<noteq> []" and "emittingWritten env"
  shows "\<exists>r. processBatch env students startTime = Emission r
       \<and> endedAt r = pollTime env startTime (sleeps r)
       \<and> sleeps r \<le> 60
       \<and> (\<forall>j < sleeps r. pollTime env startTime j - startTime < HANDSHAKE_TIMEOUT
              \<and> readyCount (queueAt env (pollTime env startTime j)) (map entry_id students)
                   \<noteq> length students)
       \<and> (allReady r \<longrightarrow> endedAt r - startTime < HANDSHAKE_TIMEOUT
              \<and> readyCount (queueAt env (endedAt r)) (map entry_id students) = length students)
       \<and> (\<not> allReady r \<longrightarrow> HANDSHAKE_TIMEOUT \<le> endedAt r - startTime)
       \<and> readyAtEnd r = readyCount (queueAt env (endedAt r)) (map entry_id students)
       \<and> (0 < sleeps r \<longrightarrow>
              endedAt r - startTime < HANDSHAKE_TIMEOUT + 50 + int (lateness env (sleeps r - 1)))
       \<and> emitInvokedAt r
            = (if emitterPresent env
               then Some (endedAt r + 100 + int (lateness env (sleeps r))) else None)
       \<and> ((\<forall>j. lateness env j \<le> D) \<longrightarrow>
              endedAt r - startTime < HANDSHAKE_TIMEOUT + 50 + int D
            \<and> endedAt r + 100 + int (lateness env (sleeps r)) - startTime
                < HANDSHAKE_TIMEOUT + 150 + 2 * int D)
       \<and> ((\<forall>j. lateness env j = 0) \<longrightarrow>
              endedAt r - startTime \<le> HANDSHAKE_TIMEOUT
            \<and> endedAt r + 100 + int (lateness env (sleeps r)) - startTime
                \<le> HANDSHAKE_TIMEOUT + 100)
       \<and> HANDSHAKE_TIMEOUT = 3000"
proof -
  let ?ids = "map entry_id students"
  obtain ready t k where run:
    "handshake_loop env ?ids (length students) startTime startTime 0 = (ready, t, k)"
    by (cases "handshake_loop env ?ids (length students) startTime startTime 0") auto
  define r where "r = \<lparr> allReady = ready, endedAt = t, sleeps = k,
            readyAtEnd = readyCount (queueAt env t) ?ids,
            emitInvokedAt = (if emitterPresent env
                             then Some (t + 100 + int (lateness env k)) else None) \<rparr>"
  have pb_eq: "processBatch env students startTime = Emission r"
    unfolding r_def by (rule processBatch_unfold[OF assms run])
  have r: "allReady r = ready" "endedAt r = t" "sleeps r = k"
    "readyAtEnd r = readyCount (queueAt env t) ?ids"
    "emitInvokedAt r = (if emitterPresent env then Some (t + 100 + int (lateness env k)) else None)"
    by (simp_all add: r_def)
  have p0: "polledBefore env ?ids (length students) startTime 0"
    by (simp add: polledBefore_def)
  have st0: "startTime = pollTime env startTime 0" by simp
  from handshake_loop_spec[OF st0 p0 run]
  have t: "t = pollTime env startTime k"
    and pb: "polledBefore env ?ids (length students) startTime k"
    and rdy: "ready \<longrightarrow> t - startTime < HANDSHAKE_TIMEOUT
                 \<and> readyCount (queueAt env t) ?ids = length students"
    and nrdy: "\<not> ready \<longrightarrow> HANDSHAKE_TIMEOUT \<le> t - startTime"
    by blast+
  have k60: "k \<le> 60" using pb by (rule polledBefore_bound)
  have last: "t - startTime < HANDSHAKE_TIMEOUT + 50 + int (lateness env (k - 1))" if "0 < k"
  proof -
    from that obtain k0 where k0: "k = Suc k0" by (cases k) auto
    with pb have "pollTime env startTime k0 - startTime < HANDSHAKE_TIMEOUT"
      by (simp add: polledBefore_def)
    with t k0 show ?thesis by simp
  qed
  have bounded: "t - startTime < HANDSHAKE_TIMEOUT + 50 + int D
       \<and> t + 100 + int (lateness env k) - startTime < HANDSHAKE_TIMEOUT + 150 + 2 * int D"
    if D: "\<forall>j. lateness env j \<le> D"
  proof -
    have a: "t - startTime < HANDSHAKE_TIMEOUT + 50 + int D"
    proof (cases "0 < k")
      case True
      from D have "int (lateness env (k - 1)) \<le> int D" by simp
      with last[OF True] show ?thesis by linarith
    next
      case False
      with t have "t = startTime" by simp
      then show ?thesis by (simp add: HANDSHAKE_TIMEOUT_def)
    qed
    from D have "int (lateness env k) \<le> int D" by simp
    with a show ?thesis by linarith
  qed
  have exact: "t - startTime \<le> HANDSHAKE_TIMEOUT
       \<and> t + 100 + int (lateness env k) - startTime \<le> HANDSHAKE_TIMEOUT + 100"
    if z: "\<forall>j. lateness env j = 0"
    using pollTime_exact[OF z, of startTime k] t k60 z by (simp add: HANDSHAKE_TIMEOUT_def)
  show ?thesis
  proof (rule exI[of _ r], unfold r, intro conjI)
    show "processBatch env students startTime = Emission r" by (rule pb_eq)
    show "t = pollTime env startTime k" by (rule t)
    show "k \<le> 60" by (rule k60)
    show "\<forall>j<k. pollTime env startTime j - startTime < HANDSHAKE_TIMEOUT
            \<and> readyCount (queueAt env (pollTime env startTime j)) ?ids \<noteq> length students"
      using pb by (simp add: polledBefore_def)
    show "ready \<longrightarrow> t - startTime < HANDSHAKE_TIMEOUT
            \<and> readyCount (queueAt env t) ?ids = length students"
      by (rule rdy)
    show "\<not> ready \<longrightarrow> HANDSHAKE_TIMEOUT \<le> t - startTime" by (rule nrdy)
    show "readyCount (queueAt env t) ?ids = readyCount (queueAt env t) ?ids" ..
    show "0 < k \<longrightarrow> t - startTime < HANDSHAKE_TIMEOUT + 50 + int (lateness env (k - 1))"
      using last by simp
    show "(if emitterPresent env then Some (t + 100 + int (lateness env k)) else None)
            = (if emitterPresent env then Some (t + 100 + int (lateness env k)) else None)" ..
    show "(\<forall>j. lateness env j \<le> D) \<longrightarrow>
            t - startTime < HANDSHAKE_TIMEOUT + 50 + int D
          \<and> t + 100 + int (lateness env k) - startTime < HANDSHAKE_TIMEOUT + 150 + 2 * int D"
      using bounded by simp
    show "(\<forall>j. lateness env j = 0) \<longrightarrow>
            t - startTime \<le> HANDSHAKE_TIMEOUT
          \<and> t + 100 + int (lateness env k) - startTime \<le> HANDSHAKE_TIMEOUT + 100"
      using exact by simp
    show "HANDSHAKE_TIMEOUT = 3000" by (simp add: HANDSHAKE_TIMEOUT_def)
  qed
qed

theorem processBatch_handshake_wait_is_bounded_witness:
  "sampleBatch \<noteq> [] \<and> emittingWritten promptEnv \<and> emittingWritten stragglerEnv
   \<and> emittingWritten lateEnv
   \<and> processBatch promptEnv sampleBatch 1000
       = Emission \<lparr> allReady = True, endedAt = 1150, sleeps = 3, readyAtEnd = 2,
                    emitInvokedAt = Some 1250 \<rparr>
   \<and> readyCount (queueAt promptEnv 1150) (map entry_id sampleBatch) = length sampleBatch
   \<and> readyCount (queueAt promptEnv (pollTime promptEnv 1000 2)) (map entry_id sampleBatch)
       \<noteq> length sampleBatch
   \<and> processBatch stragglerEnv sampleBatch 1000
       = Emission \<lparr> allReady = False, endedAt = 4000, sleeps = 60, readyAtEnd = 1,
                    emitInvokedAt = Some 4100 \<rparr>
   \<and> (\<forall>j. lateness stragglerEnv j = 0)
   \<and> 4000 - 1000 \<le> HANDSHAKE_TIMEOUT
   \<and> HANDSHAKE_TIMEOUT \<le> 4000 - 1000
   \<and> processBatch lateEnv sampleBatch 1000
       = Emission \<lparr> allReady = False, endedAt = 4021, sleeps = 53, readyAtEnd = 1,
                    emitInvokedAt = Some 4128 \<rparr>
   \<and> (\<forall>j. lateness lateEnv j \<le> 7)
   \<and> 4021 - 1000 < HANDSHAKE_TIMEOUT + 50 + int 7
   \<and> 4021 + 100 + int (lateness lateEnv 53) - 1000 < HANDSHAKE_TIMEOUT + 150 + 2 * int 7"
proof -
  let ?ids = "map entry_id sampleBatch"
  have l0: "\<forall>j. lateness stragglerEnv j = 0" by (simp add: env_flags)
  have l7: "\<forall>j. lateness lateEnv j \<le> 7" by (simp add: env_flags)
  from processBatch_handshake_wait_is_bounded
         [OF sampleBatch_ne env_flags(1), of 1000 0]
  obtain r where r: "processBatch promptEnv sampleBatch 1000 = Emission r"
    and polls: "\<forall>j < sleeps r.
        readyCount (queueAt promptEnv (pollTime promptEnv 1000 j)) ?ids \<noteq> length sampleBatch"
    and rdy: "allReady r \<longrightarrow>
        readyCount (queueAt promptEnv (endedAt r)) ?ids = length sampleBatch"
    by blast
  from r have rp: "r = \<lparr> allReady = True, endedAt = 1150, sleeps = 3, readyAtEnd = 2,
                    emitInvokedAt = Some 1250 \<rparr>"
    unfolding prompt_batch by simp
  from rdy have p1: "readyCount (queueAt promptEnv 1150) ?ids = length sampleBatch"
    unfolding rp by simp
  from polls have p2: "readyCount (queueAt promptEnv (pollTime promptEnv 1000 2)) ?ids
                         \<noteq> length sampleBatch"
    unfolding rp by simp
  from processBatch_handshake_wait_is_bounded
         [OF sampleBatch_ne env_flags(4), of 1000 0]
  obtain s where s: "processBatch stragglerEnv sampleBatch 1000 = Emission s"
    and s_not: "\<not> allReady s \<longrightarrow> HANDSHAKE_TIMEOUT \<le> endedAt s - 1000"
    and s_exact: "(\<forall>j. lateness stragglerEnv j = 0) \<longrightarrow> endedAt s - 1000 \<le> HANDSHAKE_TIMEOUT"
    by blast
  from s have sp: "s = \<lparr> allReady = False, endedAt = 4000, sleeps = 60, readyAtEnd = 1,
                    emitInvokedAt = Some 4100 \<rparr>"
    unfolding straggler_batch by simp
  from s_not have s1: "HANDSHAKE_TIMEOUT \<le> 4000 - 1000"
    unfolding sp by simp
  from s_exact l0 have s2: "4000 - 1000 \<le> HANDSHAKE_TIMEOUT"
    unfolding sp by simp
  from processBatch_handshake_wait_is_bounded
         [OF sampleBatch_ne env_flags(7), of 1000 7]
  obtain u where u: "processBatch lateEnv sampleBatch 1000 = Emission u"
    and u_bound: "(\<forall>j. lateness lateEnv j \<le> 7) \<longrightarrow>
              endedAt u - 1000 < HANDSHAKE_TIMEOUT + 50 + int 7
            \<and> endedAt u + 100 + int (lateness lateEnv (sleeps u)) - 1000
                < HANDSHAKE_TIMEOUT + 150 + 2 * int 7"
    by blast
  from u have up: "u = \<lparr> allReady = False, endedAt = 4021, sleeps = 53, readyAtEnd = 1,
                    emitInvokedAt = Some 4128 \<rparr>"
    unfolding late_batch by simp
  from u_bound l7 have u1: "4021 - 1000 < HANDSHAKE_TIMEOUT + 50 + int 7"
    and u2: "4021 + 100 + int (lateness lateEnv 53) - 1000 < HANDSHAKE_TIMEOUT + 150 + 2 * int 7"
    unfolding up by simp_all
  from sampleBatch_ne env_flags(1) env_flags(4) env_flags(7) prompt_batch p1 p2
       straggler_batch l0 s2 s1 late_batch l7 u1 u2
  show ?thesis by (intro conjI)
qed

text \<open>
  Against C7 as worded. With timers that fire exactly on time and one student who
  never listens, the handshake started at 1000 ms ends at 4000 ms and the emitter
  is invoked at 4100 ms, 3100 ms after the start: later than the handshake timeout.
  With timers that fire 7 ms late the polling itself ends 3021 ms after the start.
\<close>

theorem handshake_claim_counterexample:
  "processBatch stragglerEnv sampleBatch 1000
       = Emission \<lparr> allReady = False, endedAt = 4000, sleeps = 60, readyAtEnd = 1,
                    emitInvokedAt = Some 4100 \<rparr>
   \<and> \<not> (4100 - 1000 \<le> HANDSHAKE_TIMEOUT)
   \<and> processBatch lateEnv sampleBatch 1000
       = Emission \<lparr> allReady = False, endedAt = 4021, sleeps = 53, readyAtEnd = 1,
                    emitInvokedAt = Some 4128 \<rparr>
   \<and> \<not> (4021 - 1000 \<le> HANDSHAKE_TIMEOUT)"
  using straggler_batch late_batch by (simp add: HANDSHAKE_TIMEOUT_def)

end
